theory Spec2Isabelle
  imports
    Main
    "HOL-Library.Multiset"
    "HOL-Library.AList"
    "HOL-Library.Char_ord"
    "HOL-Library.List_Lexorder"
begin

section \<open>Conventions shared by the components\<close>

text \<open>
  JavaScript strings are modelled as \<^typ>\<open>string\<close>; a value of type
  \<open>string | null\<close> (or \<open>string | undefined\<close>) is a \<^typ>\<open>string option\<close>.
  The source tests such values for truthiness (\<open>if (r.parent_id)\<close>, \<open>!existing.display_name\<close>,
  \<open>a || b\<close>): \<open>null\<close>, \<open>undefined\<close> and the empty string are falsy, every other string is
  truthy.
\<close>

definition truthy :: "string option \<Rightarrow> bool" where
  "truthy v = (case v of None \<Rightarrow> False | Some s \<Rightarrow> s \<noteq> [])"

text \<open>\<open>a || b\<close> on nullable strings: the left operand when it is truthy, the right one otherwise.\<close>

definition js_or :: "string option \<Rightarrow> string option \<Rightarrow> string option" where
  "js_or a b = (if truthy a then a else b)"

text \<open>
  A JavaScript string is modelled by the bytes of its UTF-8 encoding, so a character
  outside ASCII is a sequence of two to four \<^typ>\<open>char\<close>s.

  \<open>String.prototype.trim\<close> removes the white space and line terminator code points from
  both ends of a string. They are U+0009 to U+000D, U+0020, U+00A0, U+1680, U+2000 to
  U+200A, U+2028, U+2029, U+202F, U+205F, U+3000 and U+FEFF, listed here by their encodings.
\<close>

definition white_space :: "string list" where
  "white_space =
     [[CHR 0x09], [CHR 0x0A], [CHR 0x0B], [CHR 0x0C], [CHR 0x0D], [CHR 0x20],
      [CHR 0xC2, CHR 0xA0],
      [CHR 0xE1, CHR 0x9A, CHR 0x80],
      [CHR 0xE2, CHR 0x80, CHR 0x80], [CHR 0xE2, CHR 0x80, CHR 0x81],
      [CHR 0xE2, CHR 0x80, CHR 0x82], [CHR 0xE2, CHR 0x80, CHR 0x83],
      [CHR 0xE2, CHR 0x80, CHR 0x84], [CHR 0xE2, CHR 0x80, CHR 0x85],
      [CHR 0xE2, CHR 0x80, CHR 0x86], [CHR 0xE2, CHR 0x80, CHR 0x87],
      [CHR 0xE2, CHR 0x80, CHR 0x88], [CHR 0xE2, CHR 0x80, CHR 0x89],
      [CHR 0xE2, CHR 0x80, CHR 0x8A],
      [CHR 0xE2, CHR 0x80, CHR 0xA8], [CHR 0xE2, CHR 0x80, CHR 0xA9],
      [CHR 0xE2, CHR 0x80, CHR 0xAF],
      [CHR 0xE2, CHR 0x81, CHR 0x9F],
      [CHR 0xE3, CHR 0x80, CHR 0x80],
      [CHR 0xEF, CHR 0xBB, CHR 0xBF]]"

text \<open>
  Removing from the front of \<open>s\<close> every leading occurrence of one of the byte sequences
  \<open>ws\<close>; each removal shortens the string.
\<close>

function strip_leading :: "string list \<Rightarrow> string \<Rightarrow> string" where
  "strip_leading ws s =
     (case find (\<lambda>w. w \<noteq> [] \<and> take (length w) s = w) ws of
        None \<Rightarrow> s
      | Some w \<Rightarrow> strip_leading ws (drop (length w) s))"
  by pat_completeness auto
termination
proof (relation "measure (\<lambda>(ws, s). length s)", goal_cases)
  case 1
  then show ?case by simp
next
  case (2 ws s w)
  then have w: "w \<noteq> []" "take (length w) s = w"
    by (auto simp: find_Some_iff)
  then have "s \<noteq> []"
    by auto
  with w(1) show ?case by simp
qed

declare strip_leading.simps [simp del]

text \<open>
  \<open>trim\<close>: the white space is removed from the front, and, read backwards, from the end.
\<close>

definition trim :: "string \<Rightarrow> string" where
  "trim s = rev (strip_leading (map rev white_space) (rev (strip_leading white_space s)))"

record Profile =
  prof_id :: string
  prof_display_name :: "string option"
  prof_avatar_url :: "string option"


section \<open>Chat.tsx: conversation identity and message reconciliation\<close>

record Message =
  msg_id :: string
  sender_id :: string
  receiver_id :: string
  msg_body :: string
  msg_created_at :: string

definition samePair :: "Message \<Rightarrow> string \<Rightarrow> string \<Rightarrow> bool" where
  "samePair m me other =
     ((sender_id m = me \<and> receiver_id m = other) \<or>
      (sender_id m = other \<and> receiver_id m = me))"

text \<open>
  \<open>dmChannel\<close>: the two identifiers in ascending order, written \<open>dm:<min>:<max>\<close>.
  The comparison \<open>me < other\<close> of JavaScript is the lexicographic order on code units,
  here the lexicographic order on the bytes of \<^typ>\<open>string\<close>; both are linear orders,
  and they agree on ASCII identifiers.
\<close>

definition dmChannel :: "string \<Rightarrow> string \<Rightarrow> string" where
  "dmChannel me other =
     (if me < other then ''dm:'' @ me @ '':'' @ other else ''dm:'' @ other @ '':'' @ me)"

text \<open>The view state of the \<open>Chat\<close> component that the message store touches.\<close>

record ChatState =
  messages :: "Message list"
  chat_text :: string
  chat_error :: string

text \<open>
  The callback of the realtime subscription (\<open>postgres_changes\<close>, event \<open>INSERT\<close>):
  an event of another pair is ignored, an identifier already in the list is ignored,
  anything else is appended.
\<close>

definition onInsert :: "string \<Rightarrow> string \<Rightarrow> Message \<Rightarrow> ChatState \<Rightarrow> ChatState" where
  "onInsert me selected_id m st =
     (if \<not> samePair m me selected_id then st
      else st\<lparr>messages :=
        (if \<exists>x \<in> set (messages st). msg_id x = msg_id m then messages st
         else messages st @ [m])\<rparr>)"

text \<open>
  \<open>send\<close> up to its \<open>await\<close>: the guards, the clearing of error and input, and the optimistic
  append. \<open>me\<close> is \<open>user?.id\<close>, \<open>selected\<close> the selected profile, \<open>uuid\<close> the value of
  \<open>crypto.randomUUID()\<close> and \<open>now\<close> that of \<open>new Date().toISOString()\<close>. The result
  is the new state and, when the message was issued, its identifier.
\<close>

definition send_begin ::
  "string option \<Rightarrow> Profile option \<Rightarrow> string \<Rightarrow> string \<Rightarrow> ChatState \<Rightarrow> ChatState \<times> string option"
where
  "send_begin me selected uuid now st =
     (case me of
        None \<Rightarrow> (st, None)
      | Some me_id \<Rightarrow>
          if me_id = [] then (st, None)
          else (case selected of
            None \<Rightarrow> (st, None)
          | Some sel \<Rightarrow>
              if prof_id sel = [] then (st, None)
              else let body = trim (chat_text st) in
                if body = [] then (st, None)
                else
                  let optimistic = \<lparr>msg_id = uuid, sender_id = me_id, receiver_id = prof_id sel,
                                     msg_body = body, msg_created_at = now\<rparr>
                  in (st\<lparr>chat_error := [], chat_text := [],
                          messages := messages st @ [optimistic]\<rparr>, Some uuid)))"

text \<open>
  \<open>send\<close> after the \<open>await\<close>: \<open>err\<close> is the \<open>error.message\<close> of the backend insert, if any.
\<close>

definition send_settle :: "string \<Rightarrow> string option \<Rightarrow> ChatState \<Rightarrow> ChatState" where
  "send_settle uuid err st =
     (case err of
        None \<Rightarrow> st
      | Some msg \<Rightarrow> st\<lparr>chat_error := msg,
                        messages := filter (\<lambda>m. msg_id m \<noteq> uuid) (messages st)\<rparr>)"

text \<open>A whole \<open>send\<close> with no other event between the optimistic append and the confirmation.\<close>

definition send ::
  "string option \<Rightarrow> Profile option \<Rightarrow> string \<Rightarrow> string \<Rightarrow> string option \<Rightarrow> ChatState \<Rightarrow> ChatState"
where
  "send me selected uuid now err st =
     (case send_begin me selected uuid now st of
        (st', None) \<Rightarrow> st'
      | (st', Some i) \<Rightarrow> send_settle i err st')"



section \<open>Comments.tsx: the flat comment collection and cascading deletion\<close>

text \<open>
  A JavaScript \<open>Map\<close> keeps its keys in insertion order; \<open>set\<close> on a key that is present
  replaces the value in place. It is modelled as an association list with distinct keys,
  updated by \<open>AList.update\<close>. \<open>new Map(entries)\<close> sets the entries one after the other.
\<close>

definition Map_new :: "('k \<times> 'v) list \<Rightarrow> ('k \<times> 'v) list" where
  "Map_new entries = fold (\<lambda>(k, v) m. AList.update k v m) entries []"

definition Map_has :: "('k \<times> 'v) list \<Rightarrow> 'k \<Rightarrow> bool" where
  "Map_has m k = (map_of m k \<noteq> None)"

text \<open>A row of the \<open>comments\<close> table (the field \<open>id\<close> is \<open>row_id\<close> here).\<close>

record Row =
  row_id :: string
  photo_id :: string
  parent_id :: "string option"
  user_id :: string
  display_name :: "string option"
  body :: string
  created_at :: string

text \<open>
  The local pruning of \<open>deleteComment\<close> (the function passed to \<open>setRows\<close>).
  \<open>children_step\<close> is the body of the loop that fills \<open>childrenByParent\<close>.
\<close>

definition children_step :: "Row \<Rightarrow> (string \<times> string list) list \<Rightarrow> (string \<times> string list) list" where
  "children_step r m =
     (case parent_id r of
        None \<Rightarrow> m
      | Some p \<Rightarrow>
          if p = [] then m
          else let arr = (case map_of m p of None \<Rightarrow> [] | Some a \<Rightarrow> a)
               in AList.update p (arr @ [row_id r]) m)"

definition childrenByParent :: "Row list \<Rightarrow> (string \<times> string list) list" where
  "childrenByParent prev = fold children_step prev []"

text \<open>\<open>childrenByParent.get(cur) ?? []\<close>\<close>

definition kids_of :: "(string \<times> string list) list \<Rightarrow> string \<Rightarrow> string list" where
  "kids_of cbp cur = (case map_of cbp cur of None \<Rightarrow> [] | Some ks \<Rightarrow> ks)"

text \<open>
  The \<open>while (stack.length)\<close> loop. The stack is a list whose head is the top (the end
  of the JavaScript array): \<open>pop\<close> takes the head, and pushing the children one after the
  other leaves the last child on top. \<open>toRemove\<close> is the \<open>Set\<close> of visited identifiers.
  The loop terminates because every iteration either shortens the stack or marks an
  identifier, of the finitely many on the stack or in the adjacency map, that was not marked.
\<close>

definition all_kids :: "(string \<times> string list) list \<Rightarrow> string set" where
  "all_kids cbp = (\<Union>ks \<in> snd ` set cbp. set ks)"

lemma kids_of_subset: "set (kids_of cbp cur) \<subseteq> all_kids cbp"
  by (auto simp: kids_of_def all_kids_def split: option.splits dest!: sym [THEN map_of_SomeD])

lemma finite_all_kids: "finite (all_kids cbp)"
  by (simp add: all_kids_def)

function collect :: "(string \<times> string list) list \<Rightarrow> string list \<Rightarrow> string set \<Rightarrow> string set" where
  "collect cbp [] toRemove = toRemove"
| "collect cbp (cur # stack) toRemove =
     (if cur \<in> toRemove then collect cbp stack toRemove
      else collect cbp (rev (kids_of cbp cur) @ stack) (insert cur toRemove))"
  by pat_completeness auto
termination
proof (relation "measures [\<lambda>(cbp, stack, tr). card ((set stack \<union> all_kids cbp) - tr),
                           \<lambda>(cbp, stack, tr). length stack]", goal_cases)
  case 1
  then show ?case by simp
next
  case (2 cbp cur stack toRemove)
  have "(set stack \<union> all_kids cbp) - toRemove \<subseteq> (set (cur # stack) \<union> all_kids cbp) - toRemove"
    by auto
  then have "card ((set stack \<union> all_kids cbp) - toRemove)
        \<le> card ((set (cur # stack) \<union> all_kids cbp) - toRemove)"
    by (intro card_mono) (auto simp: finite_all_kids)
  then show ?case by auto
next
  case (3 cbp cur stack toRemove)
  have "(set (rev (kids_of cbp cur) @ stack) \<union> all_kids cbp) - insert cur toRemove
        \<subset> (set (cur # stack) \<union> all_kids cbp) - toRemove"
    using 3 kids_of_subset [of cbp cur] by auto
  then have "card ((set (rev (kids_of cbp cur) @ stack) \<union> all_kids cbp) - insert cur toRemove)
        < card ((set (cur # stack) \<union> all_kids cbp) - toRemove)"
    by (intro psubset_card_mono) (auto simp: finite_all_kids)
  then show ?case by simp
qed

definition prune :: "string \<Rightarrow> Row list \<Rightarrow> Row list" where
  "prune i prev =
     (let byId = Map_new (map (\<lambda>r. (row_id r, r)) prev);
          cbp = childrenByParent prev;
          toRemove = collect cbp [i] {}
      in if \<not> Map_has byId i then prev
         else filter (\<lambda>r. row_id r \<notin> toRemove) prev)"


text \<open>The view state of the \<open>Comments\<close> component.\<close>

record CommentsState =
  rows :: "Row list"
  comment_text :: string
  replyTo :: "string option"
  comment_error :: string
  busyId :: "string option"

text \<open>
  \<open>deleteComment\<close>. \<open>signed_in\<close> is whether \<open>user\<close> is set, \<open>ok\<close> the answer of
  \<open>window.confirm\<close>, \<open>delete_error\<close> the \<open>error.message\<close> of the backend delete, if any.
  \<open>replyTo\<close> is read from the state the call started in. The \<open>finally\<close> block resets
  \<open>busyId\<close> on every path that entered the \<open>try\<close>.
\<close>

definition not_signed_in_msg :: string where
  "not_signed_in_msg =
     ''Inicia sesi'' @ [CHR 0xC3, CHR 0xB3] @ ''n para administrar tus comentarios.''"

definition deleteComment ::
  "string \<Rightarrow> bool \<Rightarrow> bool \<Rightarrow> string option \<Rightarrow> CommentsState \<Rightarrow> CommentsState"
where
  "deleteComment i signed_in ok delete_error st =
     (let st0 = st\<lparr>comment_error := []\<rparr> in
      if \<not> signed_in then st0\<lparr>comment_error := not_signed_in_msg\<rparr>
      else if \<not> ok then st0
      else
        let st1 = st0\<lparr>busyId := Some i\<rparr> in
        (case delete_error of
           Some msg \<Rightarrow> st1\<lparr>comment_error := msg, busyId := None\<rparr>
         | None \<Rightarrow>
             let st2 = st1\<lparr>rows := prune i (rows st1)\<rparr>;
                 st3 = (if replyTo st = Some i then st2\<lparr>replyTo := None\<rparr> else st2)
             in st3\<lparr>busyId := None\<rparr>))"

text \<open>
  The specification's notion of the identifiers to remove: the target, and every
  identifier of a record whose parent link points to an identifier to remove. A parent link
  is a \<open>parent_id\<close> that is neither \<open>null\<close> nor empty, as everywhere in the source.
\<close>

inductive descends :: "Row list \<Rightarrow> string \<Rightarrow> string \<Rightarrow> bool" for prev :: "Row list" and i :: string where
  target: "descends prev i i"
| child: "descends prev i p \<Longrightarrow> r \<in> set prev \<Longrightarrow> parent_id r = Some p \<Longrightarrow> p \<noteq> [] \<Longrightarrow>
          descends prev i (row_id r)"

text \<open>
  The same notion with every \<open>parent_id\<close> other than \<open>null\<close> counted as a link; the two
  differ only when the empty string is an identifier.
\<close>

inductive descends_plain :: "Row list \<Rightarrow> string \<Rightarrow> string \<Rightarrow> bool" for prev :: "Row list" and i :: string where
  plain_target: "descends_plain prev i i"
| plain_child: "descends_plain prev i p \<Longrightarrow> r \<in> set prev \<Longrightarrow> parent_id r = Some p \<Longrightarrow>
          descends_plain prev i (row_id r)"


section \<open>Comments.tsx: the tree builder\<close>

text \<open>\<open>type Node = Row & { replies: Node[] }\<close>, as a value.\<close>

datatype Node = Node (node_row: Row) (replies: "Node list")

text \<open>
  While \<open>buildTree\<close> links the nodes, they are mutable objects that refer to each other.
  The wrapper node created for a row is the value stored in \<open>byId\<close> under the row's
  identifier, so a reference to a node object is modelled by that key, and a node object by
  its row together with its \<open>replies\<close> array of references.
\<close>

type_synonym node_obj = "Row \<times> string list"

type_synonym node_heap = "(string \<times> node_obj) list"

text \<open>
  The body of \<open>for (const n of byId.values())\<close>: \<open>n\<close> is pushed onto the \<open>replies\<close> of
  the node stored under its parent identifier, or onto \<open>roots\<close>.
\<close>

definition link_step :: "Row \<Rightarrow> node_heap \<times> string list \<Rightarrow> node_heap \<times> string list" where
  "link_step n acc =
     (case acc of (byId, roots) \<Rightarrow>
        (case parent_id n of
           None \<Rightarrow> (byId, roots @ [row_id n])
         | Some p \<Rightarrow>
             if p \<noteq> [] \<and> Map_has byId p
             then (AList.map_entry p (\<lambda>(r, reps). (r, reps @ [row_id n])) byId, roots)
             else (byId, roots @ [row_id n])))"

text \<open>
  The first half of \<open>buildTree\<close>: the lookup of wrapper nodes, and the linking loop over
  its values in the order of the \<open>Map\<close>. The loop changes \<open>replies\<close> arrays only, never the
  keys or the order of \<open>byId\<close>, so it runs over the rows of the initial lookup.
\<close>

definition link :: "Row list \<Rightarrow> node_heap \<times> string list" where
  "link rows_in =
     (let byId = Map_new (map (\<lambda>r. (row_id r, (r, []))) rows_in)
      in fold link_step (map (\<lambda>(k, n). fst n) byId) (byId, []))"

text \<open>
  Reading the object graph below a node as a value of type \<open>Node\<close>, along the \<open>replies\<close>
  references. \<open>path\<close> holds the nodes between the root and the current node. A reference
  back to a node on the path is a cycle in the object graph, on which the recursion of
  \<open>sortRec\<close> (and of the rendering) never ends: that outcome is \<open>None\<close>. So is a
  reference to no node, which cannot arise. The recursion ends because the path grows
  within the finitely many nodes of the heap.
\<close>

function materialize :: "node_heap \<Rightarrow> string list \<Rightarrow> string \<Rightarrow> Node option" where
  "materialize h path i =
     (if i \<in> set path then None
      else (case map_of h i of
              None \<Rightarrow> None
            | Some n \<Rightarrow> map_option (Node (fst n)) (those (map (materialize h (i # path)) (snd n)))))"
  by pat_completeness auto
termination
proof (relation "measure (\<lambda>(h, path, i). card (fst ` set h - set path))", goal_cases)
  case 1
  then show ?case by simp
next
  case (2 h path i n k)
  then have "i \<in> fst ` set h"
    by (metis domI dom_map_of_conv_image_fst)
  with 2 have "fst ` set h - set (i # path) \<subset> fst ` set h - set path"
    by auto
  then have "card (fst ` set h - set (i # path)) < card (fst ` set h - set path)"
    by (intro psubset_card_mono) auto
  then show ?case by simp
qed

text \<open>
  The time value \<open>new Date(s).getTime()\<close> is an integer number of milliseconds, or \<open>NaN\<close>
  when \<open>s\<close> is not a date. The parsing is the parameter \<open>getTime\<close>, with \<open>None\<close> for
  \<open>NaN\<close>. The comparator of \<open>sortRec\<close> subtracts the time values of two nodes; the
  difference is \<open>NaN\<close> as soon as one of them is.
\<close>

definition time_diff :: "int option \<Rightarrow> int option \<Rightarrow> int option" where
  "time_diff a b =
     (case a of
        None \<Rightarrow> None
      | Some x \<Rightarrow> (case b of None \<Rightarrow> None | Some y \<Rightarrow> Some (x - y)))"

definition compare_created :: "(string \<Rightarrow> int option) \<Rightarrow> Node \<Rightarrow> Node \<Rightarrow> int option" where
  "compare_created getTime a b =
     time_diff (getTime (created_at (node_row a))) (getTime (created_at (node_row b)))"

text \<open>
  \<open>Array.prototype.sort\<close> with a comparator. The sort is stable and a comparator result
  \<open>NaN\<close> counts as \<open>+0\<close>. When the comparator orders the elements consistently, every
  stable sort gives the same array; otherwise the language leaves the order to the
  implementation. The model is the stable insertion sort: each element, from the last to the
  first, is put in front of the first element of the sorted rest that it does not exceed.
\<close>

fun insort_by :: "('a \<Rightarrow> 'a \<Rightarrow> int option) \<Rightarrow> 'a \<Rightarrow> 'a list \<Rightarrow> 'a list" where
  "insort_by cmp x [] = [x]"
| "insort_by cmp x (y # ys) =
     (if (case cmp x y of None \<Rightarrow> 0 | Some v \<Rightarrow> v) \<le> 0 then x # y # ys
      else y # insort_by cmp x ys)"

definition Array_sort :: "('a \<Rightarrow> 'a \<Rightarrow> int option) \<Rightarrow> 'a list \<Rightarrow> 'a list" where
  "Array_sort cmp arr = foldr (insort_by cmp) arr []"

lemma set_insort_by: "set (insort_by cmp x xs) = insert x (set xs)"
  by (induction xs) auto

lemma set_Array_sort: "set (Array_sort cmp arr) = set arr"
  by (induction arr) (simp_all add: Array_sort_def set_insort_by)

text \<open>
  \<open>sortRec\<close>: the array is sorted, then the replies of each element are sorted. No array
  is shared between two nodes, so sorting the arrays in place and then reading the result
  is sorting the value that was read.
\<close>

lemma size_replies_less:
  assumes "x \<in> set arr"
  shows "size_list size (replies x) < size_list size arr"
proof -
  have "size_list size (replies x) < size x"
    by (cases x) simp
  also have "size x \<le> size_list size arr"
    using assms by (simp add: size_list_estimation')
  finally show ?thesis .
qed

function sortRec :: "(string \<Rightarrow> int option) \<Rightarrow> Node list \<Rightarrow> Node list" where
  "sortRec getTime arr =
     map (\<lambda>x. Node (node_row x) (sortRec getTime (replies x)))
         (Array_sort (compare_created getTime) arr)"
  by pat_completeness auto
termination
  by (relation "measure (\<lambda>(getTime, arr). size_list size arr)")
     (auto simp: size_replies_less set_Array_sort)

declare materialize.simps [simp del]

declare sortRec.simps [simp del]

text \<open>\<open>buildTree\<close>: the sorted forest, or \<open>None\<close> when \<open>sortRec\<close> does not return.\<close>

definition buildTree :: "(string \<Rightarrow> int option) \<Rightarrow> Row list \<Rightarrow> Node list option" where
  "buildTree getTime rows_in =
     (case link rows_in of (byId, roots) \<Rightarrow>
        map_option (sortRec getTime) (those (map (materialize byId []) roots)))"


section \<open>AuthProvider.tsx: profile back-fill and session hydration\<close>

text \<open>
  The user and session objects of the identity provider, reduced to the fields the provider
  reads. \<open>user_metadata\<close> is untyped in the source; its four fields are read as
  optional strings (an absent \<open>user_metadata\<close> has all four absent).
\<close>

record UserMetadata =
  full_name :: "string option"
  meta_name :: "string option"
  meta_avatar_url :: "string option"
  picture :: "string option"

record User =
  usr_id :: string
  email :: "string option"
  user_metadata :: UserMetadata

record Session =
  access_token :: string
  session_user :: "User option"

record ProfileDefaults =
  default_display_name :: "string option"
  default_avatar_url :: "string option"

text \<open>\<open>user.email.split("@")[0]\<close>: the part of the address before the first \<open>@\<close>.\<close>

definition email_local_part :: "string \<Rightarrow> string" where
  "email_local_part e = takeWhile (\<lambda>c. c \<noteq> CHR ''@'') e"

definition buildProfileDefaults :: "User \<Rightarrow> ProfileDefaults" where
  "buildProfileDefaults user =
     (let meta = user_metadata user in
      \<lparr>default_display_name =
         js_or (js_or (js_or (full_name meta) (meta_name meta))
                      (case email user of None \<Rightarrow> None | Some e \<Rightarrow> Some (email_local_part e)))
               (Some ''Usuario''),
       default_avatar_url = js_or (js_or (meta_avatar_url meta) (picture meta)) None\<rparr>)"

text \<open>
  The backing data service is an external collaborator. Its \<open>profiles\<close> table is modelled
  as a finite map from identifier to row, changed by nobody else during one call of
  \<open>ensureProfile\<close>. Whether a request fails is decided outside the program, so each
  request takes its failure as an argument: a read that fails, or finds no row, gives
  \<open>null\<close> (\<open>selectProfile\<close> maps every error to \<open>null\<close>); an insert fails with the injected
  error, or because the identifier is already in the table; an update by identifier fails
  with the injected error, and otherwise overwrites the columns named by the patch.
\<close>

type_synonym profiles_table = "string \<rightharpoonup> Profile"

definition selectProfile :: "bool \<Rightarrow> profiles_table \<Rightarrow> string \<Rightarrow> Profile option" where
  "selectProfile fails tbl userId = (if fails then None else tbl userId)"

definition insert_profile ::
  "string option \<Rightarrow> profiles_table \<Rightarrow> Profile \<Rightarrow> profiles_table \<times> string option" where
  "insert_profile err tbl p =
     (case err of
        Some e \<Rightarrow> (tbl, Some e)
      | None \<Rightarrow>
          if prof_id p \<in> dom tbl then (tbl, Some ''duplicate key value'')
          else (tbl(prof_id p \<mapsto> p), None))"

text \<open>\<open>Partial<Profile>\<close>: a field is \<open>None\<close> when the key is absent from the patch.\<close>

record ProfilePatch =
  patch_display_name :: "string option"
  patch_avatar_url :: "string option"

definition apply_patch :: "ProfilePatch \<Rightarrow> Profile \<Rightarrow> Profile" where
  "apply_patch patch p =
     p\<lparr>prof_display_name :=
         (case patch_display_name patch of None \<Rightarrow> prof_display_name p | Some v \<Rightarrow> Some v),
       prof_avatar_url :=
         (case patch_avatar_url patch of None \<Rightarrow> prof_avatar_url p | Some v \<Rightarrow> Some v)\<rparr>"

definition update_profile ::
  "string option \<Rightarrow> profiles_table \<Rightarrow> string \<Rightarrow> ProfilePatch \<Rightarrow> profiles_table \<times> string option"
where
  "update_profile err tbl userId patch =
     (case err of
        Some e \<Rightarrow> (tbl, Some e)
      | None \<Rightarrow>
          (case tbl userId of
             None \<Rightarrow> (tbl, None)
           | Some row \<Rightarrow> (tbl(userId \<mapsto> apply_patch patch row), None)))"

text \<open>The failures of the requests of one call: a call makes at most two reads.\<close>

record Faults =
  first_select_fails :: bool
  insert_error :: "string option"
  update_error :: "string option"
  second_select_fails :: bool

text \<open>Step 3 of \<open>ensureProfile\<close>: the patch holds a default only where the row has no value.\<close>

definition missing_fields_patch :: "Profile \<Rightarrow> ProfileDefaults \<Rightarrow> ProfilePatch" where
  "missing_fields_patch existing defaults =
     \<lparr>patch_display_name =
        (if \<not> truthy (prof_display_name existing) \<and> truthy (default_display_name defaults)
         then default_display_name defaults else None),
      patch_avatar_url =
        (if \<not> truthy (prof_avatar_url existing) \<and> truthy (default_avatar_url defaults)
         then default_avatar_url defaults else None)\<rparr>"

text \<open>
  \<open>ensureProfile\<close>: the table after the call, and the thrown error message (\<open>Inl\<close>) or the
  returned profile (\<open>Inr\<close>).
\<close>

definition ensureProfile ::
  "User \<Rightarrow> Faults \<Rightarrow> profiles_table \<Rightarrow> profiles_table \<times> (string + Profile)" where
  "ensureProfile user f tbl =
     (let defaults = buildProfileDefaults user in
      case selectProfile (first_select_fails f) tbl (usr_id user) of
        None \<Rightarrow>
          (case insert_profile (insert_error f) tbl
                  \<lparr>prof_id = usr_id user,
                   prof_display_name = default_display_name defaults,
                   prof_avatar_url = default_avatar_url defaults\<rparr> of
             (tbl1, Some insertError) \<Rightarrow>
               (case selectProfile (second_select_fails f) tbl1 (usr_id user) of
                  None \<Rightarrow> (tbl1, Inl insertError)
                | Some afterRace \<Rightarrow> (tbl1, Inr afterRace))
           | (tbl1, None) \<Rightarrow>
               (case selectProfile (second_select_fails f) tbl1 (usr_id user) of
                  None \<Rightarrow>
                    (tbl1, Inl ''Unable to read profile after insert (check RLS SELECT on profiles).'')
                | Some created \<Rightarrow> (tbl1, Inr created)))
      | Some existing \<Rightarrow>
          let patch = missing_fields_patch existing defaults in
          if patch_display_name patch \<noteq> None \<or> patch_avatar_url patch \<noteq> None then
            (case update_profile (update_error f) tbl (usr_id user) patch of
               (tbl1, Some patchError) \<Rightarrow> (tbl1, Inl patchError)
             | (tbl1, None) \<Rightarrow>
                 (case selectProfile (second_select_fails f) tbl1 (usr_id user) of
                    Some updated \<Rightarrow> (tbl1, Inr updated)
                  | None \<Rightarrow> (tbl1, Inr existing)))
          else (tbl, Inr existing))"

text \<open>
  The state of the provider: the React state, and the two refs of the concurrency guard.
  \<open>runIdRef\<close> counts the hydration attempts started so far; it is a JavaScript number,
  exact for every count below \<open>2^53\<close>, and is modelled as a natural number.
\<close>

record AuthState =
  session :: "Session option"
  user :: "User option"
  profile :: "Profile option"
  authLoading :: bool
  profileLoading :: bool
  errMsg :: "string option"
  runIdRef :: nat
  mountedRef :: bool

definition commitIfLatest :: "nat \<Rightarrow> (AuthState \<Rightarrow> AuthState) \<Rightarrow> AuthState \<Rightarrow> AuthState" where
  "commitIfLatest runId fn st =
     (if \<not> mountedRef st then st
      else if runId \<noteq> runIdRef st then st
      else fn st)"

text \<open>
  \<open>hydrateFromSession\<close> up to the point where the profile request is in flight: the new
  state, the captured \<open>runId\<close>, and the user whose profile was requested, if any. Nothing
  in the \<open>try\<close> block of the model raises, so its \<open>catch\<close> branch has no counterpart.
\<close>

definition hydrateFromSession :: "Session option \<Rightarrow> AuthState \<Rightarrow> AuthState \<times> nat \<times> User option" where
  "hydrateFromSession s st =
     (let st0 = st\<lparr>runIdRef := runIdRef st + 1\<rparr>;
          runId = runIdRef st0;
          s_user = (case s of None \<Rightarrow> None | Some ss \<Rightarrow> session_user ss);
          st1 = commitIfLatest runId (\<lambda>t. t\<lparr>authLoading := True, errMsg := None\<rparr>) st0;
          st2 = commitIfLatest runId (\<lambda>t. t\<lparr>session := s, user := s_user\<rparr>) st1;
          st3 = commitIfLatest runId (\<lambda>t. t\<lparr>authLoading := False\<rparr>) st2
      in case s_user of
           Some u \<Rightarrow>
             let defaults = buildProfileDefaults u in
             (commitIfLatest runId
                (\<lambda>t. t\<lparr>profile :=
                          (case profile t of
                             None \<Rightarrow> Some \<lparr>prof_id = usr_id u,
                                            prof_display_name = default_display_name defaults,
                                            prof_avatar_url = default_avatar_url defaults\<rparr>
                           | Some prev \<Rightarrow> Some prev),
                        profileLoading := True\<rparr>) st3,
              runId, Some u)
         | None \<Rightarrow>
             (commitIfLatest runId (\<lambda>t. t\<lparr>profile := None, profileLoading := False\<rparr>) st3,
              runId, None))"

text \<open>
  The three handlers on the promise of \<open>ensureProfile\<close> (under its timeout) of attempt
  \<open>runId\<close>: \<open>then\<close> with the profile, \<open>catch\<close> with the optional message of the rejection
  or timeout, and \<open>finally\<close>. Each runs as a callback of its own.
\<close>

definition on_resolved :: "nat \<Rightarrow> Profile \<Rightarrow> AuthState \<Rightarrow> AuthState" where
  "on_resolved runId p st = commitIfLatest runId (\<lambda>t. t\<lparr>profile := Some p\<rparr>) st"

definition on_rejected :: "nat \<Rightarrow> string option \<Rightarrow> AuthState \<Rightarrow> AuthState" where
  "on_rejected runId m st =
     commitIfLatest runId
       (\<lambda>t. t\<lparr>errMsg := Some (case m of None \<Rightarrow> ''Profile sync error'' | Some e \<Rightarrow> e)\<rparr>) st"

definition on_finally :: "nat \<Rightarrow> AuthState \<Rightarrow> AuthState" where
  "on_finally runId st = commitIfLatest runId (\<lambda>t. t\<lparr>profileLoading := False\<rparr>) st"

text \<open>
  The settling of the profile request of attempt \<open>runId\<close> with nothing in between:
  \<open>Inr p\<close> when it resolved with \<open>p\<close>, \<open>Inl m\<close> when it rejected or timed out.
\<close>

definition settle :: "nat \<Rightarrow> string option + Profile \<Rightarrow> AuthState \<Rightarrow> AuthState" where
  "settle runId res st =
     on_finally runId
       (case res of Inr p \<Rightarrow> on_resolved runId p st | Inl m \<Rightarrow> on_rejected runId m st)"

text \<open>
  What can happen to the provider between two points in time: an identity change starts a
  hydration, a handler of the profile request of some attempt runs, or the provider is
  unmounted.
\<close>

datatype auth_event =
  Hydrate "Session option"
  | Resolved nat Profile
  | Rejected nat "string option"
  | Finally nat
  | Unmount

fun auth_step :: "auth_event \<Rightarrow> AuthState \<Rightarrow> AuthState" where
  "auth_step (Hydrate s) st = fst (hydrateFromSession s st)"
| "auth_step (Resolved runId p) st = on_resolved runId p st"
| "auth_step (Rejected runId m) st = on_rejected runId m st"
| "auth_step (Finally runId) st = on_finally runId st"
| "auth_step Unmount st = st\<lparr>mountedRef := False\<rparr>"

definition auth_run :: "auth_event list \<Rightarrow> AuthState \<Rightarrow> AuthState" where
  "auth_run evs st = fold auth_step evs st"


text \<open>The records of a tree and of a forest, parents before their replies.\<close>

fun node_rows :: "Node \<Rightarrow> Row list" where
  "node_rows (Node r reps) = r # concat (map node_rows reps)"

definition forest_rows :: "Node list \<Rightarrow> Row list" where
  "forest_rows forest = concat (map node_rows forest)"

text \<open>
  The sibling sequences of a forest: the root sequence, and the \<open>replies\<close> of every node.
\<close>

fun node_seqs :: "Node \<Rightarrow> Node list list" where
  "node_seqs (Node r reps) = reps # concat (map node_seqs reps)"

definition sibling_seqs :: "Node list \<Rightarrow> Node list list" where
  "sibling_seqs forest = forest # concat (map node_seqs forest)"

text \<open>
  The parent links of a collection, from the identifier of a record to the identifier of its
  parent: the links that \<open>buildTree\<close> follows, with a \<open>parent_id\<close> that is neither \<open>null\<close>
  nor empty and that occurs in the collection.
\<close>

definition parent_links :: "Row list \<Rightarrow> (string \<times> string) set" where
  "parent_links vals =
     {(row_id c, p) | c p. c \<in> set vals \<and> parent_id c = Some p \<and> p \<noteq> [] \<and> p \<in> row_id ` set vals}"


section \<open>Notions used in the proofs about the tree builder\<close>

text \<open>The rows held by the lookup \<open>byId\<close>, in its order.\<close>

definition lookup_rows :: "Row list \<Rightarrow> Row list" where
  "lookup_rows rows_in =
     map (\<lambda>(k, n). fst n) (Map_new (map (\<lambda>r. (row_id r, (r, []::string list))) rows_in))"

text \<open>Whether the linking loop attaches a record to a parent, and the records attached to an identifier.\<close>

definition has_parent :: "Row list \<Rightarrow> Row \<Rightarrow> bool" where
  "has_parent vals c =
     (case parent_id c of None \<Rightarrow> False | Some p \<Rightarrow> p \<noteq> [] \<and> p \<in> row_id ` set vals)"

definition kids :: "Row list \<Rightarrow> string \<Rightarrow> Row list" where
  "kids vals p = filter (\<lambda>c. parent_id c = Some p \<and> p \<noteq> []) vals"

definition root_rows :: "Row list \<Rightarrow> Row list" where
  "root_rows vals = filter (\<lambda>c. \<not> has_parent vals c) vals"

text \<open>The heap in which the node of every row has the replies given by \<open>f\<close>.\<close>

definition heap_of :: "(string \<Rightarrow> string list) \<Rightarrow> Row list \<Rightarrow> node_heap" where
  "heap_of f vals = map (\<lambda>r. (row_id r, (r, f (row_id r)))) vals"

text \<open>
  An identifier is rooted when its chain of parent links ends at a record without parent
  link; \<open>rooted_links\<close> are the links to a rooted parent.
\<close>

definition rooted :: "Row list \<Rightarrow> string \<Rightarrow> bool" where
  "rooted vals i = (\<exists>r. (i, r) \<in> (parent_links vals)\<^sup>* \<and> r \<notin> Domain (parent_links vals))"

definition rooted_links :: "Row list \<Rightarrow> (string \<times> string) set" where
  "rooted_links vals = {(c, p). (c, p) \<in> parent_links vals \<and> rooted vals p}"

text \<open>
  A tree read from the heap is well linked when the replies of every node are its attached
  records, in the order of the lookup; the tree of a record holds the record and its
  descendants, each once.
\<close>

fun well_linked :: "Row list \<Rightarrow> Node \<Rightarrow> bool" where
  "well_linked vals (Node r reps) =
     (map node_row reps = kids vals (row_id r) \<and> (\<forall>c \<in> set reps. well_linked vals c))"

definition subtree_of :: "Row list \<Rightarrow> Row \<Rightarrow> Node \<Rightarrow> bool" where
  "subtree_of vals v t =
     (node_row t = v \<and> well_linked vals t \<and> distinct (node_rows t) \<and>
      set (node_rows t) = {u \<in> set vals. (row_id u, row_id v) \<in> (parent_links vals)\<^sup>*})"


section \<open>Example data\<close>

definition ex_user :: User where
  "ex_user = \<lparr>usr_id = ''ann'', email = Some ''ann@example.org'',
              user_metadata = \<lparr>full_name = Some ''Ann Provider'', meta_name = None,
                               meta_avatar_url = None, picture = Some ''http://img/ann''\<rparr>\<rparr>"

definition ex_profile :: Profile where
  "ex_profile = \<lparr>prof_id = ''ann'', prof_display_name = Some ''annie'', prof_avatar_url = None\<rparr>"

definition ex_table :: profiles_table where
  "ex_table = [''ann'' \<mapsto> ex_profile]"

definition no_faults :: Faults where
  "no_faults = \<lparr>first_select_fails = False, insert_error = None, update_error = None,
                second_select_fails = False\<rparr>"

definition ex_auth :: AuthState where
  "ex_auth = \<lparr>session = None, user = None, profile = None, authLoading = True,
              profileLoading = False, errMsg = None, runIdRef = 0, mountedRef = True\<rparr>"

definition ex_session :: Session where
  "ex_session = \<lparr>access_token = ''token'', session_user = Some ex_user\<rparr>"


definition ex_chat :: ChatState where
  "ex_chat = \<lparr>messages = [\<lparr>msg_id = ''m1'', sender_id = ''bob'', receiver_id = ''ann'',
                            msg_body = ''hi'', msg_created_at = ''2024-01-01T00:00:00Z''\<rparr>],
              chat_text = '' hello '', chat_error = []\<rparr>"

definition ex_sel :: Profile where
  "ex_sel = \<lparr>prof_id = ''bob'', prof_display_name = Some ''Bob'', prof_avatar_url = None\<rparr>"

definition ex_echo :: Message where
  "ex_echo = \<lparr>msg_id = ''m1'', sender_id = ''ann'', receiver_id = ''bob'',
              msg_body = ''hello'', msg_created_at = ''2024-01-01T00:00:02Z''\<rparr>"

definition ex_push :: Message where
  "ex_push = \<lparr>msg_id = ''m2'', sender_id = ''ann'', receiver_id = ''bob'',
              msg_body = ''hello'', msg_created_at = ''2024-01-01T00:00:01.5Z''\<rparr>"


definition mk_row :: "string \<Rightarrow> string option \<Rightarrow> string \<Rightarrow> Row" where
  "mk_row i p t = \<lparr>row_id = i, photo_id = ''photo'', parent_id = p, user_id = ''ann'',
                   display_name = Some ''Ann'', body = ''text'', created_at = t\<rparr>"

text \<open>Root A with children B and C, and D a child of B.\<close>

definition ex_thread :: "Row list" where
  "ex_thread = [mk_row ''A'' None ''1'', mk_row ''B'' (Some ''A'') ''2'',
                mk_row ''C'' (Some ''A'') ''3'', mk_row ''D'' (Some ''B'') ''4'']"

definition ex_comments :: CommentsState where
  "ex_comments = \<lparr>rows = ex_thread, comment_text = [], replyTo = Some ''D'',
                  comment_error = [], busyId = None\<rparr>"


text \<open>
  A stand-in for the parsing of timestamps in the examples: a timestamp is valid when it
  is a non-empty sequence of decimal digits, and is then its number of milliseconds.
\<close>

definition is_digit :: "char \<Rightarrow> bool" where
  "is_digit c = (48 \<le> (of_char c :: nat) \<and> (of_char c :: nat) \<le> 57)"

definition ex_getTime :: "string \<Rightarrow> int option" where
  "ex_getTime s =
     (if s \<noteq> [] \<and> list_all is_digit s
      then Some (foldl (\<lambda>n c. 10 * n + (int (of_char c) - 48)) 0 s) else None)"

text \<open>Three replies to P, supplied in the order c3, c1, c2.\<close>

definition ex_replies :: "Row list" where
  "ex_replies = [mk_row ''P'' None ''1000'', mk_row ''c3'' (Some ''P'') ''1003'',
                 mk_row ''c1'' (Some ''P'') ''1001'', mk_row ''c2'' (Some ''P'') ''1002'']"

text \<open>Root records of which three share a timestamp.\<close>

definition ex_ties :: "Row list" where
  "ex_ties = [mk_row ''x'' None ''5'', mk_row ''y'' None ''5'', mk_row ''z'' None ''1'',
              mk_row ''w'' None ''5'']"

text \<open>A record whose timestamp is not a date, between two records with valid timestamps.\<close>

definition ex_unparsable :: "Row list" where
  "ex_unparsable = [mk_row ''n3'' None ''3'', mk_row ''bad'' None ''soon'',
                    mk_row ''n1'' None ''1'']"

text \<open>Two records with the identifier a, and all timestamps equal.\<close>

definition ex_dups :: "Row list" where
  "ex_dups = [mk_row ''a'' None ''7'', mk_row ''b'' None ''7'',
              (mk_row ''a'' None ''7'')\<lparr>body := ''edited''\<rparr>]"

text \<open>Two records that name each other as parent.\<close>

definition ex_cycle :: "Row list" where
  "ex_cycle = [mk_row ''a'' (Some ''b'') ''1'', mk_row ''b'' (Some ''a'') ''2'']"

text \<open>A reply supplied before its parent, and a record whose parent is not in the collection.\<close>

definition ex_orphan :: "Row list" where
  "ex_orphan = [mk_row ''B'' (Some ''A'') ''20'', mk_row ''O'' (Some ''gone'') ''10'',
                mk_row ''A'' None ''30'']"

section \<open>Properties of the conversation identity\<close>

lemma sep_append_eq:
  assumes "a @ CHR '':'' # b = c @ CHR '':'' # d"
    and "CHR '':'' \<notin> set a" and "CHR '':'' \<notin> set c"
  shows "a = c \<and> b = d"
  using assms
proof (induction a arbitrary: c)
  case Nil
  then show ?case by (cases c) auto
next
  case (Cons x a)
  then show ?case by (cases c) auto
qed

lemma dmChannel_ordered:
  "dmChannel a b = ''dm:'' @ min a b @ '':'' @ max a b"
  by (auto simp: dmChannel_def min_def max_def)

text \<open>
  C7, first half as stated, second half as the code has it. The identity is symmetric for
  all identifier strings. Two unordered pairs with the same identity are the same pair
  provided no identifier contains the delimiter \<open>:\<close>.
\<close>

theorem dmChannel_symmetric_injective:
  "dmChannel a b = dmChannel b a \<and>
   (CHR '':'' \<notin> set a \<union> set b \<union> set c \<union> set d \<longrightarrow>
    {a, b} \<noteq> {c, d} \<longrightarrow> dmChannel a b \<noteq> dmChannel c d)"
proof (intro conjI impI)
  show "dmChannel a b = dmChannel b a"
    by (simp add: dmChannel_ordered min.commute max.commute)
next
  assume colon: "CHR '':'' \<notin> set a \<union> set b \<union> set c \<union> set d"
    and ne: "{a, b} \<noteq> {c, d}"
  show "dmChannel a b \<noteq> dmChannel c d"
  proof
    assume "dmChannel a b = dmChannel c d"
    then have eq: "min a b @ CHR '':'' # max a b = min c d @ CHR '':'' # max c d"
      by (simp add: dmChannel_ordered)
    have "CHR '':'' \<notin> set (min a b)" "CHR '':'' \<notin> set (min c d)"
      using colon by (auto simp: min_def)
    with eq have "min a b = min c d \<and> max a b = max c d"
      by (rule sep_append_eq)
    then have "{a, b} = {c, d}"
      by (auto simp: min_def max_def split: if_splits)
    with ne show False by contradiction
  qed
qed

theorem dmChannel_symmetric_injective_witness:
  "dmChannel ''u1'' ''u2'' = dmChannel ''u2'' ''u1'' \<and>
   dmChannel ''u1'' ''u2'' \<noteq> dmChannel ''u1'' ''u3''"
  using dmChannel_symmetric_injective [of "''u1''" "''u2''" "''u1''" "''u3''"]
  by (auto simp add: doubleton_eq_iff)

text \<open>
  The claim as stated, for arbitrary identifier strings, is false: the pairs
  \<open>{a:b, c}\<close> and \<open>{a, b:c}\<close> are different and share the channel \<open>dm:a:b:c\<close>.
\<close>

theorem dmChannel_collision:
  "{''a:b'', ''c''} \<noteq> {''a'', ''b:c''} \<and> dmChannel ''a:b'' ''c'' = dmChannel ''a'' ''b:c''"
  by (simp add: dmChannel_def doubleton_eq_iff less_list_code less_char_def)


section \<open>Properties of the message store\<close>

lemma send_begin_issued:
  assumes "send_begin me selected uuid now st = (st1, Some i)"
  shows "i = uuid \<and> (\<exists>opt. msg_id opt = uuid \<and> messages st1 = messages st @ [opt])
         \<and> chat_text st1 = [] \<and> chat_error st1 = []"
  using assms
  by (auto simp: send_begin_def Let_def split: option.splits if_splits)

lemma samePair_unordered:
  "samePair m me other \<longleftrightarrow> {sender_id m, receiver_id m} = {me, other}"
  by (auto simp: samePair_def doubleton_eq_iff)

text \<open>
  C3, as the code has it. The realtime handler appends the record of an INSERT event
  exactly when the unordered pair of its sender and receiver is the active pair and its
  identifier is not in the list yet; otherwise it leaves the state as it is. Hence a push
  that carries the identifier of an optimistic send adds nothing to the list, and when that
  identifier did not occur in the list at the time of the send, the list holds exactly one
  entry with it afterwards.
\<close>

theorem onInsert_dedup:
  "(samePair m me other \<longleftrightarrow> {sender_id m, receiver_id m} = {me, other})
   \<and> onInsert me other m st =
       st\<lparr>messages :=
          (if {sender_id m, receiver_id m} = {me, other} \<and> msg_id m \<notin> msg_id ` set (messages st)
           then messages st @ [m] else messages st)\<rparr>
   \<and> (send_begin u sel x now st = (st1, Some x) \<and> msg_id m = x \<longrightarrow>
        messages (onInsert me other m st1) = messages st1 \<and>
        (x \<notin> msg_id ` set (messages st) \<longrightarrow>
           length (filter (\<lambda>y. msg_id y = x) (messages (onInsert me other m st1))) = 1))"
proof (intro conjI impI)
  show "samePair m me other \<longleftrightarrow> {sender_id m, receiver_id m} = {me, other}"
    by (rule samePair_unordered)
next
  have "(\<exists>y \<in> set (messages st). msg_id y = msg_id m) \<longleftrightarrow> msg_id m \<in> msg_id ` set (messages st)"
    by (auto simp: image_iff) metis
  then show "onInsert me other m st =
       st\<lparr>messages :=
          (if {sender_id m, receiver_id m} = {me, other} \<and> msg_id m \<notin> msg_id ` set (messages st)
           then messages st @ [m] else messages st)\<rparr>"
    by (simp add: onInsert_def flip: samePair_unordered)
next
  assume a: "send_begin u sel x now st = (st1, Some x) \<and> msg_id m = x"
  then obtain opt where opt: "msg_id opt = x" "messages st1 = messages st @ [opt]"
    using send_begin_issued by blast
  then show same: "messages (onInsert me other m st1) = messages st1"
    using a by (auto simp: onInsert_def)
  assume fresh: "x \<notin> msg_id ` set (messages st)"
  then have "filter (\<lambda>y. msg_id y = x) (messages st) = []"
    by (auto simp: filter_empty_conv)
  then show "length (filter (\<lambda>y. msg_id y = x) (messages (onInsert me other m st1))) = 1"
    using opt same by simp
qed

lemma trim_example: "trim '' hello '' = ''hello''"
  by (simp add: trim_def white_space_def strip_leading.simps)

lemma ex_send_begin:
  "send_begin (Some ''ann'') (Some ex_sel) ''m2'' ''t'' ex_chat =
     (ex_chat\<lparr>chat_error := [], chat_text := [],
              messages := messages ex_chat @
                [\<lparr>msg_id = ''m2'', sender_id = ''ann'', receiver_id = ''bob'',
                  msg_body = ''hello'', msg_created_at = ''t''\<rparr>]\<rparr>, Some ''m2'')"
  by (simp add: send_begin_def ex_sel_def ex_chat_def trim_example)

theorem onInsert_dedup_witness:
  "length (filter (\<lambda>y. msg_id y = ''m2'')
     (messages (onInsert ''ann'' ''bob'' ex_push
        (fst (send_begin (Some ''ann'') (Some ex_sel) ''m2'' ''t'' ex_chat))))) = 1"
  using onInsert_dedup [of ex_push "''ann''" "''bob''" ex_chat "Some ''ann''" "Some ex_sel"
      "''m2''" "''t''" "fst (send_begin (Some ''ann'') (Some ex_sel) ''m2'' ''t'' ex_chat)"]
  by (simp add: ex_send_begin) (simp add: ex_push_def ex_chat_def)

lemma ex_send_begin_reused:
  "send_begin (Some ''ann'') (Some ex_sel) ''m1'' ''t'' ex_chat =
     (ex_chat\<lparr>chat_error := [], chat_text := [],
              messages := messages ex_chat @
                [\<lparr>msg_id = ''m1'', sender_id = ''ann'', receiver_id = ''bob'',
                  msg_body = ''hello'', msg_created_at = ''t''\<rparr>]\<rparr>, Some ''m1'')"
  by (simp add: send_begin_def ex_sel_def ex_chat_def trim_example)

text \<open>
  Without the proviso on the identifier the last part of the claim fails: a send whose
  identifier already occurs in the list, followed by the push of that identifier, leaves two
  entries with it.
\<close>

theorem send_reused_id_twice:
  "snd (send_begin (Some ''ann'') (Some ex_sel) ''m1'' ''t'' ex_chat) = Some ''m1'' \<and>
   msg_id ex_echo = ''m1'' \<and>
   map msg_id (messages (onInsert ''ann'' ''bob'' ex_echo
      (fst (send_begin (Some ''ann'') (Some ex_sel) ''m1'' ''t'' ex_chat)))) = [''m1'', ''m1'']"
  by (simp add: ex_send_begin_reused) (simp add: onInsert_def samePair_def ex_echo_def ex_chat_def)

text \<open>
  C6. When an optimistic send is issued with an identifier that does not occur in the
  list and the backend insert reports an error, the list is exactly the list before the send,
  the error message of the backend is the displayed error, and the input stays cleared.
\<close>

theorem send_failure_rolls_back:
  assumes "me = Some me_id" and "me_id \<noteq> []"
    and "selected = Some sel" and "prof_id sel \<noteq> []"
    and "trim (chat_text st) \<noteq> []"
    and "uuid \<notin> msg_id ` set (messages st)"
  shows "messages (send me selected uuid now (Some e) st) = messages st
         \<and> chat_error (send me selected uuid now (Some e) st) = e
         \<and> chat_text (send me selected uuid now (Some e) st) = []"
proof -
  have "filter (\<lambda>m. msg_id m \<noteq> uuid) (messages st) = messages st"
    using assms(6) by (auto simp: filter_id_conv)
  then show ?thesis
    using assms(1-5) by (simp add: send_def send_begin_def send_settle_def Let_def)
qed

theorem send_failure_rolls_back_witness:
  "messages (send (Some ''ann'') (Some ex_sel) ''m2'' ''t'' (Some ''network down'') ex_chat)
     = messages ex_chat
   \<and> chat_error (send (Some ''ann'') (Some ex_sel) ''m2'' ''t'' (Some ''network down'') ex_chat)
     = ''network down''
   \<and> chat_text (send (Some ''ann'') (Some ex_sel) ''m2'' ''t'' (Some ''network down'') ex_chat)
     = []"
proof -
  have t: "trim (chat_text ex_chat) \<noteq> []"
    by (simp add: ex_chat_def trim_example)
  have f: "''m2'' \<notin> msg_id ` set (messages ex_chat)"
    by (simp add: ex_chat_def)
  have s: "prof_id ex_sel \<noteq> []"
    by (simp add: ex_sel_def)
  show ?thesis
    using send_failure_rolls_back [OF refl _ refl s t f, of "''ann''" "''t''" "''network down''"]
    by simp
qed


section \<open>Properties of the cascading deletion\<close>

lemma Map_has_new: "Map_has (Map_new entries) k \<longleftrightarrow> k \<in> fst ` set entries"
proof -
  have "fst ` set (fold (\<lambda>(k, v) m. AList.update k v m) entries acc) = fst ` set entries \<union> fst ` set acc"
    for acc :: "('a \<times> 'b) list"
    by (induction entries arbitrary: acc) (auto simp: dom_update split: prod.splits)
  then show ?thesis
    by (simp add: Map_has_def Map_new_def map_of_eq_None_iff)
qed

lemma kids_of_children_step:
  "kids_of (children_step r m) p =
     kids_of m p @ (if parent_id r = Some p \<and> p \<noteq> [] then [row_id r] else [])"
  by (auto simp: kids_of_def children_step_def update_conv' Let_def split: option.splits)

lemma kids_of_fold:
  "kids_of (fold children_step prev m) p =
     kids_of m p @ (if p = [] then [] else map row_id (filter (\<lambda>r. parent_id r = Some p) prev))"
  by (induction prev arbitrary: m) (auto simp: kids_of_children_step)

lemma kids_of_childrenByParent:
  "kids_of (childrenByParent prev) p =
     (if p = [] then [] else map row_id (filter (\<lambda>r. parent_id r = Some p) prev))"
  by (simp add: childrenByParent_def kids_of_fold) (simp add: kids_of_def)

lemma collect_mono: "toRemove \<subseteq> collect cbp stack toRemove"
  by (induction cbp stack toRemove rule: collect.induct) (auto split: if_splits)

lemma collect_stack: "set stack \<subseteq> collect cbp stack toRemove"
proof (induction cbp stack toRemove rule: collect.induct)
  case (1 cbp toRemove)
  then show ?case by simp
next
  case (2 cbp cur stack toRemove)
  show ?case
  proof (cases "cur \<in> toRemove")
    case True
    with 2 collect_mono [of toRemove cbp stack] show ?thesis by auto
  next
    case False
    with 2 collect_mono [of "insert cur toRemove" cbp "rev (kids_of cbp cur) @ stack"]
    show ?thesis by auto
  qed
qed

lemma collect_closed:
  assumes "\<forall>x \<in> toRemove. set (kids_of cbp x) \<subseteq> toRemove \<union> set stack"
  shows "\<forall>x \<in> collect cbp stack toRemove. set (kids_of cbp x) \<subseteq> collect cbp stack toRemove"
  using assms
proof (induction cbp stack toRemove rule: collect.induct)
  case (1 cbp toRemove)
  then show ?case by simp
next
  case (2 cbp cur stack toRemove)
  show ?case
  proof (cases "cur \<in> toRemove")
    case True
    have "\<forall>x\<in>toRemove. set (kids_of cbp x) \<subseteq> toRemove \<union> set stack"
      using "2.prems" True by auto
    with 2 True show ?thesis by simp
  next
    case False
    have "\<forall>x\<in>insert cur toRemove.
            set (kids_of cbp x) \<subseteq> insert cur toRemove \<union> set (rev (kids_of cbp cur) @ stack)"
      using "2.prems" by auto
    with 2 False show ?thesis by simp
  qed
qed

lemma collect_sound:
  assumes "\<forall>x \<in> set stack. P x" and "\<forall>x \<in> toRemove. P x"
    and "\<forall>x k. P x \<longrightarrow> k \<in> set (kids_of cbp x) \<longrightarrow> P k"
  shows "\<forall>x \<in> collect cbp stack toRemove. P x"
  using assms
proof (induction cbp stack toRemove rule: collect.induct)
  case (1 cbp toRemove)
  then show ?case by simp
next
  case (2 cbp cur stack toRemove)
  show ?case
  proof (cases "cur \<in> toRemove")
    case True
    have "\<forall>x\<in>collect cbp stack toRemove. P x"
      using "2.IH"(1) [OF True] "2.prems" by simp
    then show ?thesis
      using True by simp
  next
    case False
    have "P cur"
      using "2.prems" by simp
    then have "\<forall>x\<in>set (kids_of cbp cur). P x"
      using "2.prems"(3) by blast
    then have "\<forall>x\<in>set (rev (kids_of cbp cur) @ stack). P x"
      using "2.prems" by auto
    moreover have "\<forall>x\<in>insert cur toRemove. P x"
      using "2.prems" by auto
    ultimately have "\<forall>x\<in>collect cbp (rev (kids_of cbp cur) @ stack) (insert cur toRemove). P x"
      using "2.IH"(2) [OF False] "2.prems"(3) by blast
    then show ?thesis
      using False by simp
  qed
qed

lemma collect_descends:
  "x \<in> collect (childrenByParent prev) [i] {} \<longleftrightarrow> descends prev i x"
proof
  assume "x \<in> collect (childrenByParent prev) [i] {}"
  moreover have "\<forall>x \<in> collect (childrenByParent prev) [i] {}. descends prev i x"
  proof (rule collect_sound)
    show "\<forall>y k. descends prev i y \<longrightarrow> k \<in> set (kids_of (childrenByParent prev) y)
            \<longrightarrow> descends prev i k"
      by (auto simp: kids_of_childrenByParent split: if_splits intro: descends.child)
  qed (auto intro: descends.target)
  ultimately show "descends prev i x" by blast
next
  let ?S = "collect (childrenByParent prev) [i] {}"
  have closed: "\<forall>y \<in> ?S. set (kids_of (childrenByParent prev) y) \<subseteq> ?S"
    by (rule collect_closed) simp
  have sub: "set [i] \<subseteq> ?S"
    by (rule collect_stack)
  assume "descends prev i x"
  then show "x \<in> ?S"
  proof (induction rule: descends.induct)
    case target
    then show ?case using sub by simp
  next
    case (child p r)
    then have "row_id r \<in> set (kids_of (childrenByParent prev) p)"
      by (simp add: kids_of_childrenByParent)
    with closed child.IH show ?case by blast
  qed
qed

lemmas prune_eval =
  prune_def Map_new_def Map_has_def childrenByParent_def children_step_def kids_of_def
  ex_thread_def mk_row_def

lemma prune_example_A: "prune ''A'' ex_thread = []"
  by (simp add: prune_eval)

lemma prune_example_B: "map row_id (prune ''B'' ex_thread) = [''A'', ''C'']"
  by (simp add: prune_eval)

text \<open>
  C4. When the target identifier occurs in the collection, the pruning keeps, in their
  order, exactly the records whose identifier is not reachable from the target through
  parent-to-child links, and so removes the target and its transitive descendants and
  nothing else.
\<close>

theorem prune_removes_descendants:
  assumes "i \<in> row_id ` set prev"
  shows "prune i prev = filter (\<lambda>r. \<not> descends prev i (row_id r)) prev"
proof -
  have "Map_has (Map_new (map (\<lambda>r. (row_id r, r)) prev)) i"
    using assms by (simp add: Map_has_new image_image)
  then show ?thesis
    by (simp add: prune_def collect_descends del: collect.simps)
qed

theorem prune_removes_descendants_witness:
  "''B'' \<in> row_id ` set ex_thread \<and>
   prune ''B'' ex_thread = filter (\<lambda>r. \<not> descends ex_thread ''B'' (row_id r)) ex_thread \<and>
   map row_id (prune ''B'' ex_thread) = [''A'', ''C'']"
proof -
  have m: "''B'' \<in> row_id ` set ex_thread"
    by (simp add: ex_thread_def mk_row_def)
  show ?thesis
    using m prune_removes_descendants [OF m] prune_example_B by simp
qed

text \<open>
  C10. When the target identifier does not occur in the collection, the pruning returns
  the collection as it is.
\<close>

theorem prune_absent_unchanged:
  assumes "i \<notin> row_id ` set prev"
  shows "prune i prev = prev"
proof -
  have "\<not> Map_has (Map_new (map (\<lambda>r. (row_id r, r)) prev)) i"
    using assms by (simp add: Map_has_new image_image)
  then show ?thesis
    by (simp add: prune_def)
qed


theorem prune_absent_unchanged_witness:
  "''Z'' \<notin> row_id ` set ex_thread \<and> prune ''Z'' ex_thread = ex_thread"
proof -
  have m: "''Z'' \<notin> row_id ` set ex_thread"
    by (simp add: ex_thread_def mk_row_def)
  show ?thesis
    using m prune_absent_unchanged [OF m] by simp
qed

text \<open>
  When the empty string is not an identifier of the collection, the pruning removes exactly
  the records reachable through links in the plain sense as well.
\<close>

lemma descends_in_collection:
  assumes "descends prev i x" and "i \<in> row_id ` set prev"
  shows "x \<in> row_id ` set prev"
  using assms by (induction rule: descends.induct) auto

lemma descends_plain_iff:
  assumes "i \<in> row_id ` set prev" and "[] \<notin> row_id ` set prev"
  shows "descends_plain prev i x \<longleftrightarrow> descends prev i x"
proof
  assume "descends_plain prev i x"
  then show "descends prev i x"
  proof (induction rule: descends_plain.induct)
    case plain_target
    then show ?case by (rule descends.target)
  next
    case (plain_child p r)
    then have "p \<in> row_id ` set prev"
      using descends_in_collection assms(1) by blast
    with assms(2) have "p \<noteq> []" by metis
    with plain_child show ?case
      by (auto intro: descends.child)
  qed
next
  assume "descends prev i x"
  then show "descends_plain prev i x"
    by (induction rule: descends.induct) (auto intro: descends_plain.intros)
qed

lemma prune_plain_links:
  assumes "i \<in> row_id ` set prev" and "[] \<notin> row_id ` set prev"
  shows "prune i prev = filter (\<lambda>r. \<not> descends_plain prev i (row_id r)) prev"
proof -
  have "Map_has (Map_new (map (\<lambda>r. (row_id r, r)) prev)) i"
    using assms(1) by (simp add: Map_has_new image_image)
  then show ?thesis
    by (simp add: prune_def collect_descends descends_plain_iff [OF assms] del: collect.simps)
qed

lemma deleteComment_clears_target_reply:
  assumes "replyTo st = Some i"
  shows "replyTo (deleteComment i True True None st) = None"
  using assms by (simp add: deleteComment_def Let_def)

text \<open>
  C5. The reply target is compared with the deleted identifier only. With the thread
  A, B (child of A), C (child of A), D (child of B) and the reply target D, a successful
  deletion of A removes all four records, D among them, and the reply target is still D.
\<close>

theorem deleteComment_keeps_descendant_reply:
  "rows (deleteComment ''A'' True True None ex_comments) = [] \<and>
   replyTo (deleteComment ''A'' True True None ex_comments) = Some ''D''"
  by (simp add: deleteComment_def ex_comments_def Let_def prune_example_A)



section \<open>Properties of the tree builder\<close>

subsection \<open>The lookup\<close>

lemma update_fresh: "k \<notin> fst ` set al \<Longrightarrow> AList.update k v al = al @ [(k, v)]"
  by (induction al) auto

lemma Map_new_fold_distinct:
  "distinct (map fst acc) \<Longrightarrow> distinct (map fst (fold (\<lambda>(k, v) m. AList.update k v m) es acc))"
  by (induction es arbitrary: acc) (auto simp: distinct_update split: prod.splits)

lemma Map_new_distinct: "distinct (map fst (Map_new es))"
  by (simp add: Map_new_def Map_new_fold_distinct)

lemma set_update_subset: "set (AList.update k v al) \<subseteq> insert (k, v) (set al)"
  by (induction al) auto

lemma Map_new_fold_subset:
  "set (fold (\<lambda>(k, v) m. AList.update k v m) es acc) \<subseteq> set es \<union> set acc"
proof (induction es arbitrary: acc)
  case Nil
  then show ?case by simp
next
  case (Cons e es)
  obtain k v where e: "e = (k, v)" by (cases e)
  have "set (fold (\<lambda>(k, v) m. AList.update k v m) es (AList.update k v acc))
        \<subseteq> set es \<union> set (AList.update k v acc)"
    by (rule Cons.IH)
  also have "\<dots> \<subseteq> set es \<union> insert (k, v) (set acc)"
    using set_update_subset [of k v acc] by auto
  finally show ?case by (auto simp: e)
qed

lemma Map_new_subset: "set (Map_new es) \<subseteq> set es"
  using Map_new_fold_subset [of es "[]"] by (simp add: Map_new_def)

lemma Map_new_fold_keys:
  "fst ` set (fold (\<lambda>(k, v) m. AList.update k v m) es acc) = fst ` set es \<union> fst ` set acc"
  by (induction es arbitrary: acc) (auto simp: dom_update split: prod.splits)

lemma Map_new_keys: "fst ` set (Map_new es) = fst ` set es"
  by (simp add: Map_new_def Map_new_fold_keys)

lemma Map_new_fold_id:
  "distinct (map fst es) \<Longrightarrow> fst ` set es \<inter> fst ` set acc = {} \<Longrightarrow>
   fold (\<lambda>(k, v) m. AList.update k v m) es acc = acc @ es"
proof (induction es arbitrary: acc)
  case Nil
  then show ?case by simp
next
  case (Cons e es)
  obtain k v where e: "e = (k, v)" by (cases e)
  have fresh: "k \<notin> fst ` set acc"
    using Cons.prems(2) by (auto simp: e)
  have "fold (\<lambda>(k, v) m. AList.update k v m) es (acc @ [(k, v)]) = (acc @ [(k, v)]) @ es"
    using Cons.prems by (intro Cons.IH) (auto simp: e)
  then show ?case
    by (simp add: e update_fresh [OF fresh])
qed

lemma Map_new_id: "distinct (map fst es) \<Longrightarrow> Map_new es = es"
  using Map_new_fold_id [of es "[]"] by (simp add: Map_new_def)

lemma lookup_rows_heap:
  "Map_new (map (\<lambda>r. (row_id r, (r, []::string list))) rows_in) =
     map (\<lambda>r. (row_id r, (r, []))) (lookup_rows rows_in)"
proof -
  let ?es = "map (\<lambda>r. (row_id r, (r, []::string list))) rows_in"
  have "\<forall>e \<in> set (Map_new ?es). e = (row_id (fst (snd e)), (fst (snd e), []))"
    using Map_new_subset [of ?es] by auto
  then have "map (\<lambda>e. (row_id (fst (snd e)), (fst (snd e), []))) (Map_new ?es) = Map_new ?es"
    by (simp add: map_idI)
  then show ?thesis
    by (simp add: lookup_rows_def case_prod_unfold comp_def)
qed

lemma lookup_rows_distinct: "distinct (map row_id (lookup_rows rows_in))"
proof -
  have "distinct (map fst (map (\<lambda>r. (row_id r, (r, []::string list))) (lookup_rows rows_in)))"
    unfolding lookup_rows_heap [symmetric] by (rule Map_new_distinct)
  then show ?thesis by (simp add: comp_def)
qed

lemma lookup_rows_subset: "set (lookup_rows rows_in) \<subseteq> set rows_in"
proof -
  have "set (map (\<lambda>r. (row_id r, (r, []::string list))) (lookup_rows rows_in))
        \<subseteq> set (map (\<lambda>r. (row_id r, (r, []))) rows_in)"
    unfolding lookup_rows_heap [symmetric] by (rule Map_new_subset)
  then show ?thesis by auto
qed

lemma lookup_rows_id: "distinct (map row_id rows_in) \<Longrightarrow> lookup_rows rows_in = rows_in"
  by (simp add: lookup_rows_def Map_new_id comp_def case_prod_unfold)

lemma lookup_rows_ids: "row_id ` set (lookup_rows rows_in) = row_id ` set rows_in"
proof -
  have "fst ` set (map (\<lambda>r. (row_id r, (r, []::string list))) (lookup_rows rows_in))
        = fst ` set (map (\<lambda>r. (row_id r, (r, []::string list))) rows_in)"
    unfolding lookup_rows_heap [symmetric] by (rule Map_new_keys)
  then show ?thesis by (simp add: image_image)
qed

subsection \<open>The linking loop\<close>

lemma heap_of_cong:
  "(\<And>r. r \<in> set vals \<Longrightarrow> f (row_id r) = g (row_id r)) \<Longrightarrow> heap_of f vals = heap_of g vals"
  by (simp add: heap_of_def)

lemma Map_has_heap_of: "Map_has (heap_of f vals) p \<longleftrightarrow> p \<in> row_id ` set vals"
  by (simp add: Map_has_def heap_of_def map_of_eq_None_iff image_image)

lemma map_entry_heap_of:
  assumes "distinct (map row_id vals)"
  shows "AList.map_entry p (\<lambda>(r, reps). (r, reps @ [c])) (heap_of f vals)
         = heap_of (f(p := f p @ [c])) vals"
  using assms
proof (induction vals)
  case Nil
  then show ?case by (simp add: heap_of_def)
next
  case (Cons v vals)
  show ?case
  proof (cases "row_id v = p")
    case True
    then have "\<And>r. r \<in> set vals \<Longrightarrow> row_id r \<noteq> p"
      using Cons.prems by (auto simp: image_iff)
    then have "heap_of f vals = heap_of (f(p := f p @ [c])) vals"
      by (intro heap_of_cong) simp
    then show ?thesis
      using True by (simp add: heap_of_def)
  next
    case False
    then show ?thesis
      using Cons by (simp add: heap_of_def)
  qed
qed

lemma link_step_heap_of:
  assumes "distinct (map row_id vals)"
  shows "link_step x (heap_of f vals, roots) =
     (heap_of (\<lambda>i. f i @ map row_id (kids [x] i)) vals,
      roots @ map row_id (filter (\<lambda>c. \<not> has_parent vals c) [x]))"
proof (cases "parent_id x")
  case None
  then show ?thesis
    by (simp add: link_step_def has_parent_def kids_def)
next
  case (Some p)
  show ?thesis
  proof (cases "p \<noteq> [] \<and> p \<in> row_id ` set vals")
    case True
    have "heap_of (f(p := f p @ [row_id x])) vals
          = heap_of (\<lambda>i. f i @ map row_id (kids [x] i)) vals"
      using Some True by (intro heap_of_cong) (simp add: kids_def)
    then show ?thesis
      using Some True assms
      by (simp add: link_step_def has_parent_def Map_has_heap_of map_entry_heap_of)
  next
    case False
    have "heap_of f vals = heap_of (\<lambda>i. f i @ map row_id (kids [x] i)) vals"
      using Some False by (intro heap_of_cong) (auto simp: kids_def)
    then show ?thesis
      using Some False by (auto simp: link_step_def has_parent_def Map_has_heap_of)
  qed
qed

lemma kids_Cons: "kids (x # xs) i = kids [x] i @ kids xs i"
  by (simp add: kids_def)

lemma link_fold_heap_of:
  assumes "distinct (map row_id vals)"
  shows "fold link_step xs (heap_of f vals, roots) =
     (heap_of (\<lambda>i. f i @ map row_id (kids xs i)) vals,
      roots @ map row_id (filter (\<lambda>c. \<not> has_parent vals c) xs))"
proof (induction xs arbitrary: f roots)
  case Nil
  then show ?case by (simp add: kids_def)
next
  case (Cons x xs)
  show ?case
    by (simp add: link_step_heap_of [OF assms] Cons.IH kids_Cons [of x xs])
qed

lemma link_result:
  "link rows_in =
     (heap_of (\<lambda>i. map row_id (kids (lookup_rows rows_in) i)) (lookup_rows rows_in),
      map row_id (filter (\<lambda>c. \<not> has_parent (lookup_rows rows_in) c) (lookup_rows rows_in)))"
proof -
  let ?vals = "lookup_rows rows_in"
  have heap: "Map_new (map (\<lambda>r. (row_id r, (r, []::string list))) rows_in) = heap_of (\<lambda>i. []) ?vals"
    by (simp add: lookup_rows_heap heap_of_def)
  have vals: "map (\<lambda>(k, n). fst n) (heap_of (\<lambda>i. []) ?vals) = ?vals"
    by (simp add: heap_of_def comp_def)
  show ?thesis
    unfolding link_def heap Let_def vals
    by (simp add: link_fold_heap_of [OF lookup_rows_distinct])
qed

lemma map_of_heap_of:
  assumes "distinct (map row_id vals)" and "v \<in> set vals"
  shows "map_of (heap_of f vals) (row_id v) = Some (v, f (row_id v))"
proof -
  have "distinct (map fst (heap_of f vals))"
    using assms(1) by (simp add: heap_of_def comp_def)
  moreover have "(row_id v, (v, f (row_id v))) \<in> set (heap_of f vals)"
    using assms(2) by (auto simp: heap_of_def)
  ultimately show ?thesis by simp
qed

subsection \<open>Parent links\<close>

lemma parent_links_finite: "finite (parent_links vals)"
proof -
  have "parent_links vals \<subseteq> row_id ` set vals \<times> row_id ` set vals"
    by (auto simp: parent_links_def)
  then show ?thesis
    by (rule finite_subset) simp
qed

lemma row_by_id:
  assumes "distinct (map row_id vals)" and "u \<in> set vals" and "v \<in> set vals"
    and "row_id u = row_id v"
  shows "u = v"
  using assms by (meson distinct_map inj_onD)

lemma parent_links_single_valued:
  assumes "distinct (map row_id vals)"
  shows "single_valued (parent_links vals)"
proof (rule single_valuedI)
  fix x y z
  assume "(x, y) \<in> parent_links vals" and "(x, z) \<in> parent_links vals"
  then obtain c d where c: "c \<in> set vals" "row_id c = x" "parent_id c = Some y"
    and d: "d \<in> set vals" "row_id d = x" "parent_id d = Some z"
    by (auto simp: parent_links_def)
  then have "c = d"
    using row_by_id [OF assms] by simp
  with c d show "y = z" by simp
qed

lemma parent_links_kids:
  "(k, i) \<in> parent_links vals \<longleftrightarrow> k \<in> row_id ` set (kids vals i) \<and> i \<in> row_id ` set vals"
  by (auto simp: parent_links_def kids_def)

lemma not_has_parent_root:
  assumes "distinct (map row_id vals)" and "c \<in> set vals"
  shows "row_id c \<notin> Domain (parent_links vals) \<longleftrightarrow> \<not> has_parent vals c"
proof
  assume nd: "row_id c \<notin> Domain (parent_links vals)"
  show "\<not> has_parent vals c"
  proof
    assume "has_parent vals c"
    then obtain p where "parent_id c = Some p" "p \<noteq> []" "p \<in> row_id ` set vals"
      by (auto simp: has_parent_def split: option.splits)
    then have "(row_id c, p) \<in> parent_links vals"
      using assms(2) by (auto simp: parent_links_def)
    with nd show False by blast
  qed
next
  assume np: "\<not> has_parent vals c"
  show "row_id c \<notin> Domain (parent_links vals)"
  proof
    assume "row_id c \<in> Domain (parent_links vals)"
    then obtain d p where d: "d \<in> set vals" "row_id d = row_id c" "parent_id d = Some p"
      "p \<noteq> []" "p \<in> row_id ` set vals"
      by (auto simp: parent_links_def)
    then have "d = c"
      using row_by_id [OF assms(1)] assms(2) by simp
    with d np show False
      by (simp add: has_parent_def)
  qed
qed

lemma cycle_moves_up:
  assumes "single_valued P" and "(i, r) \<in> P\<^sup>*" and "(i, i) \<in> P\<^sup>+"
  shows "(r, r) \<in> P\<^sup>+"
  using assms(2,3)
proof (induction rule: rtrancl_induct)
  case base
  then show ?case by simp
next
  case (step y z)
  then have "(y, y) \<in> P\<^sup>+" by simp
  then obtain y' where y': "(y, y') \<in> P" "(y', y) \<in> P\<^sup>*"
    by (blast dest: tranclD)
  with step.hyps(2) assms(1) have "y' = z"
    by (blast dest: single_valuedD)
  with y' step.hyps(2) show ?case
    by (blast intro: rtrancl_into_trancl1)
qed

lemma rooted_no_cycle:
  assumes "distinct (map row_id vals)" and "rooted vals i"
  shows "(i, i) \<notin> (parent_links vals)\<^sup>+"
proof
  assume cyc: "(i, i) \<in> (parent_links vals)\<^sup>+"
  from assms(2) obtain r where r: "(i, r) \<in> (parent_links vals)\<^sup>*"
    "r \<notin> Domain (parent_links vals)"
    by (auto simp: rooted_def)
  have "(r, r) \<in> (parent_links vals)\<^sup>+"
    using parent_links_single_valued [OF assms(1)] r(1) cyc by (rule cycle_moves_up)
  then have "r \<in> Domain (parent_links vals)"
    by (blast dest: tranclD)
  with r(2) show False by contradiction
qed

lemma rooted_child:
  assumes "rooted vals p" and "(c, p) \<in> parent_links vals"
  shows "rooted vals c"
  using assms by (auto simp: rooted_def intro: converse_rtrancl_into_rtrancl)

lemma rooted_links_wf:
  assumes "distinct (map row_id vals)"
  shows "wf (rooted_links vals)"
proof (rule finite_acyclic_wf)
  have sub: "rooted_links vals \<subseteq> parent_links vals"
    by (auto simp: rooted_links_def)
  then show "finite (rooted_links vals)"
    using parent_links_finite by (rule finite_subset)
  show "acyclic (rooted_links vals)"
    unfolding acyclic_def
  proof (intro allI notI)
    fix x
    assume cyc: "(x, x) \<in> (rooted_links vals)\<^sup>+"
    then obtain y where "(x, y) \<in> rooted_links vals"
      by (blast dest: tranclD)
    then have "rooted vals x"
      by (auto simp: rooted_links_def intro: rooted_child)
    moreover have "(x, x) \<in> (parent_links vals)\<^sup>+"
      using cyc sub by (meson trancl_mono)
    ultimately show False
      using rooted_no_cycle [OF assms] by blast
  qed
qed

subsection \<open>Reading the linked nodes\<close>

lemma those_map_all2:
  assumes "\<forall>x \<in> set xs. \<exists>y. f x = Some y \<and> Q x y"
  shows "\<exists>ys. those (map f xs) = Some ys \<and> list_all2 Q xs ys"
  using assms
proof (induction xs)
  case Nil
  then show ?case by simp
next
  case (Cons x xs)
  then obtain y ys where "f x = Some y" "Q x y" "those (map f xs) = Some ys" "list_all2 Q xs ys"
    by auto
  then show ?case by simp
qed

lemma all2_node_row:
  "list_all2 (\<lambda>k y. node_row y = k) ks ys \<Longrightarrow> map node_row ys = ks"
  by (induction rule: list_all2_induct) auto

lemma all2_disjoint_concat:
  assumes "list_all2 (\<lambda>k y. distinct (g y) \<and> set (g y) = S k) ks ys"
    and "distinct ks"
    and "\<forall>k1 \<in> set ks. \<forall>k2 \<in> set ks. k1 \<noteq> k2 \<longrightarrow> S k1 \<inter> S k2 = {}"
  shows "distinct (concat (map g ys)) \<and> set (concat (map g ys)) = (\<Union>k \<in> set ks. S k)"
  using assms
proof (induction rule: list_all2_induct)
  case Nil
  then show ?case by simp
next
  case (Cons k ks y ys)
  then have IH: "distinct (concat (map g ys))" "set (concat (map g ys)) = (\<Union>k \<in> set ks. S k)"
    by auto
  have "S k \<inter> (\<Union>k' \<in> set ks. S k') = {}"
    using Cons.prems by auto
  then show ?case
    using Cons.hyps(1) IH by auto
qed

lemma descendants_disjoint:
  assumes sv: "single_valued P" and nc: "(i, i) \<notin> P\<^sup>+"
    and k1: "(k1, i) \<in> P" and k2: "(k2, i) \<in> P" and ne: "k1 \<noteq> k2"
    and u1: "(u, k1) \<in> P\<^sup>*" and u2: "(u, k2) \<in> P\<^sup>*"
  shows False
proof -
  have up: "(a, b) \<in> P\<^sup>* \<Longrightarrow> (a, i) \<in> P \<Longrightarrow> (b, i) \<in> P \<Longrightarrow> a \<noteq> b \<Longrightarrow> False" for a b
  proof -
    assume ab: "(a, b) \<in> P\<^sup>*" and a: "(a, i) \<in> P" and b: "(b, i) \<in> P" and "a \<noteq> b"
    then obtain z where z: "(a, z) \<in> P" "(z, b) \<in> P\<^sup>*"
      by (auto elim: converse_rtranclE)
    with a sv have "z = i"
      by (blast dest: single_valuedD)
    with z b have "(i, i) \<in> P\<^sup>+"
      by (blast intro: rtrancl_into_trancl1)
    with nc show False by contradiction
  qed
  from single_valued_confluent [OF sv u1 u2]
  show False
    using up [of k1 k2] up [of k2 k1] k1 k2 ne by blast
qed

lemma materialize_rooted:
  assumes dist: "distinct (map row_id vals)"
    and h: "h = heap_of (\<lambda>i. map row_id (kids vals i)) vals"
  shows "rooted vals i \<Longrightarrow> v \<in> set vals \<Longrightarrow> row_id v = i \<Longrightarrow>
         \<forall>a \<in> set path. (i, a) \<in> (parent_links vals)\<^sup>+ \<Longrightarrow>
         \<exists>t. materialize h path i = Some t \<and> subtree_of vals v t"
proof (induction i arbitrary: v path rule: wf_induct_rule [OF rooted_links_wf [OF dist]])
  case (1 i)
  let ?P = "parent_links vals"
  have sv: "single_valued ?P"
    by (rule parent_links_single_valued [OF dist])
  have nc: "(i, i) \<notin> ?P\<^sup>+"
    using rooted_no_cycle [OF dist "1.prems"(1)] .
  have notin: "i \<notin> set path"
    using "1.prems"(4) nc by blast
  let ?ks = "kids vals i"
  have look: "map_of h i = Some (v, map row_id ?ks)"
    using map_of_heap_of [OF dist "1.prems"(2)] "1.prems"(3) h by simp
  have i_in: "i \<in> row_id ` set vals"
    using "1.prems"(2,3) by auto
  have ks_sub: "set ?ks \<subseteq> set vals"
    by (auto simp: kids_def)
  have link: "(row_id k, i) \<in> ?P" if "k \<in> set ?ks" for k
    using that i_in by (auto simp: parent_links_kids)
  have "\<forall>k \<in> set ?ks. \<exists>y. materialize h (i # path) (row_id k) = Some y \<and> subtree_of vals k y"
  proof
    fix k
    assume k: "k \<in> set ?ks"
    have "(row_id k, i) \<in> rooted_links vals"
      using link [OF k] "1.prems"(1) by (simp add: rooted_links_def)
    moreover have "rooted vals (row_id k)"
      using "1.prems"(1) link [OF k] by (rule rooted_child)
    moreover have "k \<in> set vals"
      using k ks_sub by blast
    moreover have "\<forall>a \<in> set (i # path). (row_id k, a) \<in> ?P\<^sup>+"
      using link [OF k] "1.prems"(4) by (auto intro: trancl_into_trancl2)
    ultimately show "\<exists>y. materialize h (i # path) (row_id k) = Some y \<and> subtree_of vals k y"
      using "1.IH" by blast
  qed
  from those_map_all2 [OF this]
  obtain ys where ys: "those (map (\<lambda>k. materialize h (i # path) (row_id k)) ?ks) = Some ys"
    and all2: "list_all2 (subtree_of vals) ?ks ys"
    by blast
  have mat: "materialize h path i = Some (Node v ys)"
    using notin look ys by (simp add: materialize.simps [of h path i] comp_def)
  have rows_ys: "map node_row ys = ?ks"
    by (rule all2_node_row) (rule list_all2_mono [OF all2], simp add: subtree_of_def)
  have wl: "\<forall>y \<in> set ys. well_linked vals y"
    using all2 by (auto simp: list_all2_conv_all_nth in_set_conv_nth subtree_of_def)
  let ?S = "\<lambda>k. {u \<in> set vals. (row_id u, row_id k) \<in> ?P\<^sup>*}"
  have "distinct vals"
    using dist by (simp add: distinct_map)
  then have dks: "distinct ?ks"
    by (simp add: kids_def)
  have disj: "\<forall>k1 \<in> set ?ks. \<forall>k2 \<in> set ?ks. k1 \<noteq> k2 \<longrightarrow> ?S k1 \<inter> ?S k2 = {}"
  proof (intro ballI impI)
    fix k1 k2
    assume k1: "k1 \<in> set ?ks" and k2: "k2 \<in> set ?ks" and ne: "k1 \<noteq> k2"
    have "row_id k1 \<noteq> row_id k2"
      using row_by_id [OF dist] k1 k2 ks_sub ne by blast
    then show "?S k1 \<inter> ?S k2 = {}"
      using descendants_disjoint [OF sv nc link [OF k1] link [OF k2]] by blast
  qed
  have "list_all2 (\<lambda>k y. distinct (node_rows y) \<and> set (node_rows y) = ?S k) ?ks ys"
    by (rule list_all2_mono [OF all2]) (simp add: subtree_of_def)
  from all2_disjoint_concat [OF this dks disj]
  have dc: "distinct (concat (map node_rows ys))"
    and sc: "set (concat (map node_rows ys)) = (\<Union>k \<in> set ?ks. ?S k)"
    by simp_all
  have v_out: "v \<notin> (\<Union>k \<in> set ?ks. ?S k)"
  proof
    assume "v \<in> (\<Union>k \<in> set ?ks. ?S k)"
    then obtain k where k: "k \<in> set ?ks" "(i, row_id k) \<in> ?P\<^sup>*"
      using "1.prems"(3) by auto
    with link [OF k(1)] have "(i, i) \<in> ?P\<^sup>+"
      by (blast intro: rtrancl_into_trancl1)
    with nc show False by contradiction
  qed
  have set_eq: "insert v (\<Union>k \<in> set ?ks. ?S k) = {u \<in> set vals. (row_id u, i) \<in> ?P\<^sup>*}"
  proof (intro equalityI subsetI)
    fix u
    assume "u \<in> insert v (\<Union>k \<in> set ?ks. ?S k)"
    then show "u \<in> {u \<in> set vals. (row_id u, i) \<in> ?P\<^sup>*}"
      using "1.prems"(2,3) link by (auto intro: rtrancl_into_rtrancl)
  next
    fix u
    assume "u \<in> {u \<in> set vals. (row_id u, i) \<in> ?P\<^sup>*}"
    then have u: "u \<in> set vals" "(row_id u, i) \<in> ?P\<^sup>*"
      by simp_all
    from u(2) show "u \<in> insert v (\<Union>k \<in> set ?ks. ?S k)"
    proof (cases rule: rtranclE)
      case base
      then have "u = v"
        using row_by_id [OF dist u(1) "1.prems"(2)] "1.prems"(3) by simp
      then show ?thesis by simp
    next
      case (step z)
      from step(2) obtain k where "k \<in> set ?ks" "row_id k = z"
        by (auto simp: parent_links_kids)
      with step(1) u(1) show ?thesis by auto
    qed
  qed
  have "subtree_of vals v (Node v ys)"
    unfolding subtree_of_def
    using rows_ys wl dc sc v_out set_eq "1.prems"(3) by simp
  with mat show ?case by blast
qed

subsection \<open>The forest before sorting\<close>

lemma root_rooted:
  assumes "distinct (map row_id vals)" and "r \<in> set vals" and "\<not> has_parent vals r"
  shows "rooted vals (row_id r)"
  using not_has_parent_root [OF assms(1,2)] assms(3) by (auto simp: rooted_def)

lemma unsorted_forest:
  "\<exists>ts. those (map (materialize (fst (link rows_in)) []) (snd (link rows_in))) = Some ts \<and>
        list_all2 (subtree_of (lookup_rows rows_in)) (root_rows (lookup_rows rows_in)) ts"
proof -
  let ?vals = "lookup_rows rows_in"
  let ?h = "heap_of (\<lambda>i. map row_id (kids ?vals i)) ?vals"
  have dist: "distinct (map row_id ?vals)"
    by (rule lookup_rows_distinct)
  have "\<forall>r \<in> set (root_rows ?vals). \<exists>t. materialize ?h [] (row_id r) = Some t \<and> subtree_of ?vals r t"
  proof
    fix r
    assume "r \<in> set (root_rows ?vals)"
    then have r: "r \<in> set ?vals" "\<not> has_parent ?vals r"
      by (simp_all add: root_rows_def)
    show "\<exists>t. materialize ?h [] (row_id r) = Some t \<and> subtree_of ?vals r t"
      by (rule materialize_rooted [OF dist refl root_rooted [OF dist r] r(1) refl]) simp
  qed
  from those_map_all2 [OF this]
  show ?thesis
    by (simp add: link_result root_rows_def comp_def)
qed

subsection \<open>Sorting\<close>

lemma sortRec_Nil: "sortRec getTime [] = []"
  by (subst sortRec.simps) (simp add: Array_sort_def)

lemma sortRec_Cons:
  "sortRec getTime (x # xs) =
     map (\<lambda>x. Node (node_row x) (sortRec getTime (replies x)))
         (Array_sort (compare_created getTime) (x # xs))"
  by (rule sortRec.simps)

lemma node_rows_forest: "node_rows x = node_row x # forest_rows (replies x)"
  by (cases x) (simp add: forest_rows_def)

lemma node_seqs_sibling: "node_seqs x = sibling_seqs (replies x)"
  by (cases x) (simp add: sibling_seqs_def)

lemma mset_insort_by: "mset (insort_by cmp x xs) = add_mset x (mset xs)"
  by (induction xs) auto

lemma mset_Array_sort: "mset (Array_sort cmp arr) = mset arr"
  by (induction arr) (simp_all add: Array_sort_def mset_insort_by)

text \<open>On valid time values the comparator sort is the stable sort by the time value.\<close>

lemma insort_by_valid:
  assumes "key x \<noteq> None" and "\<forall>y \<in> set xs. key y \<noteq> None"
  shows "insort_by (\<lambda>a b. time_diff (key a) (key b)) x xs = insort_key (\<lambda>a. the (key a)) x xs"
  using assms by (induction xs) (auto simp: time_diff_def)

lemma Array_sort_valid:
  assumes "\<forall>x \<in> set xs. key x \<noteq> None"
  shows "Array_sort (\<lambda>a b. time_diff (key a) (key b)) xs = sort_key (\<lambda>a. the (key a)) xs"
  using assms
proof (induction xs)
  case Nil
  then show ?case by (simp add: Array_sort_def)
next
  case (Cons x xs)
  then have IH: "Array_sort (\<lambda>a b. time_diff (key a) (key b)) xs = sort_key (\<lambda>a. the (key a)) xs"
    by simp
  have "Array_sort (\<lambda>a b. time_diff (key a) (key b)) (x # xs) =
        insort_by (\<lambda>a b. time_diff (key a) (key b)) x (sort_key (\<lambda>a. the (key a)) xs)"
    using IH by (simp add: Array_sort_def)
  also have "\<dots> = insort_key (\<lambda>a. the (key a)) x (sort_key (\<lambda>a. the (key a)) xs)"
    using Cons.prems by (intro insort_by_valid) simp_all
  finally show ?case by simp
qed

lemma insort_key_map:
  "map g (insort_key (\<lambda>a. f (g a)) x xs) = insort_key f (g x) (map g xs)"
  by (induction xs) auto

lemma sort_key_map: "map g (sort_key (\<lambda>a. f (g a)) xs) = sort_key f (map g xs)"
  by (induction xs) (auto simp: insort_key_map)

lemma Array_sort_rows_valid:
  assumes "\<forall>x \<in> set arr. getTime (created_at (node_row x)) \<noteq> None"
  shows "map node_row (Array_sort (compare_created getTime) arr) =
         sort_key (\<lambda>r. the (getTime (created_at r))) (map node_row arr)"
proof -
  have "compare_created getTime =
        (\<lambda>a b. time_diff (getTime (created_at (node_row a))) (getTime (created_at (node_row b))))"
    by (intro ext) (simp add: compare_created_def)
  then have "Array_sort (compare_created getTime) arr =
        sort_key (\<lambda>a. the (getTime (created_at (node_row a)))) arr"
    using Array_sort_valid [of arr "\<lambda>a. getTime (created_at (node_row a))"] assms by simp
  then show ?thesis
    by (simp add: sort_key_map [of node_row "\<lambda>r. the (getTime (created_at r))" arr])
qed

lemma sortRec_top_rows:
  "map node_row (sortRec getTime arr) = map node_row (Array_sort (compare_created getTime) arr)"
  by (subst sortRec.simps) (simp add: comp_def)

lemma sortRec_top_set: "node_row ` set (sortRec getTime arr) = node_row ` set arr"
proof -
  have "set (map node_row (sortRec getTime arr)) =
        set (map node_row (Array_sort (compare_created getTime) arr))"
    by (simp only: sortRec_top_rows)
  then show ?thesis
    by (simp add: set_Array_sort)
qed

lemma sum_list_Array_sort:
  fixes f :: "'a \<Rightarrow> 'b multiset"
  shows "(\<Sum>x\<leftarrow>Array_sort cmp xs. f x) = (\<Sum>x\<leftarrow>xs. f x)"
proof -
  have "sum_mset (mset (map f (Array_sort cmp xs))) = sum_mset (mset (map f xs))"
    by (simp add: mset_Array_sort)
  then show ?thesis
    by (simp only: sum_mset_sum_list)
qed

lemma sortRec_rows: "mset (forest_rows (sortRec getTime arr)) = mset (forest_rows arr)"
proof (induction getTime arr rule: sortRec.induct)
  case (1 getTime arr)
  let ?sorted = "Array_sort (compare_created getTime) arr"
  have step: "mset (node_rows (Node (node_row x) (sortRec getTime (replies x)))) = mset (node_rows x)"
    if "x \<in> set arr" for x
  proof -
    have "x \<in> set ?sorted"
      using that by (simp add: set_Array_sort)
    then have "mset (forest_rows (sortRec getTime (replies x))) = mset (forest_rows (replies x))"
      by (rule "1.IH")
    then show ?thesis
      by (simp add: node_rows_forest [of x] forest_rows_def)
  qed
  have "mset (forest_rows (sortRec getTime arr)) =
        (\<Sum>x\<leftarrow>?sorted. mset (node_rows (Node (node_row x) (sortRec getTime (replies x)))))"
    by (subst sortRec.simps) (simp add: forest_rows_def mset_concat comp_def del: node_rows.simps)
  also have "\<dots> = (\<Sum>x\<leftarrow>?sorted. mset (node_rows x))"
    by (rule arg_cong [where f = sum_list], rule map_cong [OF refl])
       (simp add: step set_Array_sort del: node_rows.simps)
  also have "\<dots> = (\<Sum>x\<leftarrow>arr. mset (node_rows x))"
    by (rule sum_list_Array_sort)
  also have "\<dots> = mset (forest_rows arr)"
    by (simp add: forest_rows_def mset_concat comp_def)
  finally show ?case .
qed

lemma sortRec_sibling_seqs:
  "\<forall>sibs \<in> set (sibling_seqs (sortRec getTime arr)).
     \<exists>orig \<in> set (sibling_seqs arr).
       map node_row sibs = map node_row (Array_sort (compare_created getTime) orig)"
proof (induction getTime arr rule: sortRec.induct)
  case (1 getTime arr)
  show ?case
  proof
    fix sibs
    assume "sibs \<in> set (sibling_seqs (sortRec getTime arr))"
    then consider "sibs = sortRec getTime arr"
      | y where "y \<in> set (sortRec getTime arr)" "sibs \<in> set (node_seqs y)"
      by (auto simp: sibling_seqs_def)
    then show "\<exists>orig \<in> set (sibling_seqs arr).
       map node_row sibs = map node_row (Array_sort (compare_created getTime) orig)"
    proof cases
      case 1
      then show ?thesis
        by (auto simp: sortRec_top_rows sibling_seqs_def)
    next
      case 2
      from 2(1) obtain x where x: "x \<in> set arr"
        "y = Node (node_row x) (sortRec getTime (replies x))"
        by (subst (asm) sortRec.simps) (auto simp: set_Array_sort)
      with 2(2) have "sibs \<in> set (sibling_seqs (sortRec getTime (replies x)))"
        by (simp add: sibling_seqs_def)
      moreover have "x \<in> set (Array_sort (compare_created getTime) arr)"
        using x(1) by (simp add: set_Array_sort)
      ultimately obtain orig where orig: "orig \<in> set (sibling_seqs (replies x))"
        "map node_row sibs = map node_row (Array_sort (compare_created getTime) orig)"
        using "1.IH" by blast
      have "orig \<in> set (sibling_seqs arr)"
        using orig(1) x(1) by (auto simp: sibling_seqs_def [of arr] node_seqs_sibling)
      with orig(2) show ?thesis by blast
    qed
  qed
qed

lemma well_linked_seqs:
  "well_linked vals t \<Longrightarrow> \<forall>orig \<in> set (node_seqs t). \<exists>Q. map node_row orig = filter Q vals"
proof (induction t rule: node_seqs.induct)
  case (1 r reps)
  show ?case
  proof
    fix orig
    assume "orig \<in> set (node_seqs (Node r reps))"
    then consider "orig = reps" | c where "c \<in> set reps" "orig \<in> set (node_seqs c)"
      by auto
    then show "\<exists>Q. map node_row orig = filter Q vals"
    proof cases
      case 1
      with "1.prems" show ?thesis
        by (auto simp: kids_def)
    next
      case 2
      with "1.IH" [OF 2(1)] "1.prems" show ?thesis by auto
    qed
  qed
qed

lemma sorted_filter_stable:
  assumes "map node_row sibs = sort_key key (filter Q vals)"
  shows "sorted (map key (map node_row sibs))
       \<and> (\<forall>t. filter (\<lambda>r. key r = t) (map node_row sibs)
              = filter (\<lambda>r. key r = t \<and> r \<in> node_row ` set sibs) vals)
       \<and> node_row ` set sibs \<subseteq> set vals"
proof -
  have mem: "node_row ` set sibs = {r \<in> set vals. Q r}"
  proof -
    have "node_row ` set sibs = set (map node_row sibs)" by simp
    also have "\<dots> = {r \<in> set vals. Q r}"
      unfolding assms by auto
    finally show ?thesis .
  qed
  have "filter (\<lambda>r. key r = t) (map node_row sibs)
        = filter (\<lambda>r. key r = t \<and> r \<in> node_row ` set sibs) vals" for t
  proof -
    have "filter (\<lambda>r. key r = t) (map node_row sibs) = filter (\<lambda>r. key r = t) (filter Q vals)"
      unfolding assms by (rule sort_key_stable)
    also have "\<dots> = filter (\<lambda>r. key r = t \<and> r \<in> node_row ` set sibs) vals"
      unfolding mem filter_filter by (rule filter_cong [OF refl]) auto
    finally show ?thesis .
  qed
  moreover have "sorted (map key (map node_row sibs))"
    unfolding assms by (rule sorted_sort_key)
  ultimately show ?thesis
    using mem by blast
qed

subsection \<open>The built forest\<close>

lemma buildTree_unsorted:
  "\<exists>ts. buildTree getTime rows_in = Some (sortRec getTime ts) \<and>
        list_all2 (subtree_of (lookup_rows rows_in)) (root_rows (lookup_rows rows_in)) ts"
proof -
  obtain ts where ts: "those (map (materialize (fst (link rows_in)) []) (snd (link rows_in))) = Some ts"
    "list_all2 (subtree_of (lookup_rows rows_in)) (root_rows (lookup_rows rows_in)) ts"
    using unsorted_forest by blast
  then have "buildTree getTime rows_in = Some (sortRec getTime ts)"
    by (simp add: buildTree_def case_prod_unfold)
  with ts(2) show ?thesis by blast
qed

lemma unsorted_seqs_filter:
  assumes "list_all2 (subtree_of vals) (root_rows vals) ts"
    and "orig \<in> set (sibling_seqs ts)"
  shows "\<exists>Q. map node_row orig = filter Q vals"
proof -
  from assms(2) consider "orig = ts" | y where "y \<in> set ts" "orig \<in> set (node_seqs y)"
    by (auto simp: sibling_seqs_def)
  then show ?thesis
  proof cases
    case 1
    have "map node_row ts = root_rows vals"
      by (rule all2_node_row) (rule list_all2_mono [OF assms(1)], simp add: subtree_of_def)
    with 1 show ?thesis
      by (auto simp: root_rows_def)
  next
    case 2
    from 2(1) assms(1) have "well_linked vals y"
      by (auto simp: list_all2_conv_all_nth in_set_conv_nth subtree_of_def)
    with 2(2) show ?thesis
      using well_linked_seqs by blast
  qed
qed

text \<open>
  C9, as the code has it. \<open>buildTree\<close> returns for every collection. When every
  creation timestamp of the collection is a valid date, every sibling sequence of the
  forest (the root sequence and the replies of every node) is ascending in the time value;
  when moreover the identifiers of the collection are unique, the records of a sibling
  sequence that share a timestamp stand in the order they have in the input.
\<close>

theorem buildTree_siblings_sorted:
  "\<exists>forest. buildTree getTime rows_in = Some forest \<and>
     ((\<forall>r \<in> set rows_in. getTime (created_at r) \<noteq> None) \<longrightarrow>
      (\<forall>sibs \<in> set (sibling_seqs forest).
        (\<exists>ts. map (\<lambda>n. getTime (created_at (node_row n))) sibs = map Some ts \<and> sorted ts) \<and>
        (distinct (map row_id rows_in) \<longrightarrow>
          (\<forall>t. filter (\<lambda>r. getTime (created_at r) = t) (map node_row sibs) =
               filter (\<lambda>r. getTime (created_at r) = t \<and> r \<in> node_row ` set sibs) rows_in))))"
proof -
  let ?vals = "lookup_rows rows_in"
  let ?time = "\<lambda>r. getTime (created_at r)"
  let ?key = "\<lambda>r. the (getTime (created_at r))"
  obtain forest0 where f0: "buildTree getTime rows_in = Some (sortRec getTime forest0)"
    "list_all2 (subtree_of ?vals) (root_rows ?vals) forest0"
    using buildTree_unsorted by blast
  have "(\<exists>ts. map (\<lambda>n. ?time (node_row n)) sibs = map Some ts \<and> sorted ts) \<and>
        (distinct (map row_id rows_in) \<longrightarrow>
          (\<forall>t. filter (\<lambda>r. ?time r = t) (map node_row sibs) =
               filter (\<lambda>r. ?time r = t \<and> r \<in> node_row ` set sibs) rows_in))"
    if valid: "\<forall>r \<in> set rows_in. ?time r \<noteq> None"
      and sibs: "sibs \<in> set (sibling_seqs (sortRec getTime forest0))" for sibs
  proof -
    have valid_vals: "\<forall>r \<in> set ?vals. ?time r \<noteq> None"
      using valid lookup_rows_subset [of rows_in] by blast
    from sibs obtain orig where orig: "orig \<in> set (sibling_seqs forest0)"
      "map node_row sibs = map node_row (Array_sort (compare_created getTime) orig)"
      using sortRec_sibling_seqs by blast
    from unsorted_seqs_filter [OF f0(2) orig(1)]
    obtain Q where Q: "map node_row orig = filter Q ?vals" ..
    have "set (map node_row orig) \<subseteq> set ?vals"
      unfolding Q by auto
    then have "\<forall>x \<in> set orig. ?time (node_row x) \<noteq> None"
      using valid_vals by auto
    from Array_sort_rows_valid [OF this] orig(2) Q
    have "map node_row sibs = sort_key ?key (filter Q ?vals)"
      by simp
    from sorted_filter_stable [OF this]
    have srt: "sorted (map ?key (map node_row sibs))"
      and stb: "\<And>v. filter (\<lambda>r. ?key r = v) (map node_row sibs)
              = filter (\<lambda>r. ?key r = v \<and> r \<in> node_row ` set sibs) ?vals"
      and mem: "node_row ` set sibs \<subseteq> set ?vals"
      by simp_all
    have valid_sibs: "\<forall>r \<in> set (map node_row sibs). ?time r \<noteq> None"
      using mem valid_vals by auto
    have "map (\<lambda>n. ?time (node_row n)) sibs = map Some (map ?key (map node_row sibs))"
      using valid_sibs by (auto simp: comp_def)
    with srt have first: "\<exists>ts. map (\<lambda>n. ?time (node_row n)) sibs = map Some ts \<and> sorted ts"
      by blast
    have second: "filter (\<lambda>r. ?time r = t) (map node_row sibs) =
               filter (\<lambda>r. ?time r = t \<and> r \<in> node_row ` set sibs) rows_in"
      if "distinct (map row_id rows_in)" for t
    proof -
      have eq: "?vals = rows_in"
        using that by (rule lookup_rows_id)
      show ?thesis
      proof (cases t)
        case None
        have "filter (\<lambda>r. ?time r = t) (map node_row sibs) = []"
          using valid_sibs None by (auto simp: filter_empty_conv)
        moreover have "filter (\<lambda>r. ?time r = t \<and> r \<in> node_row ` set sibs) rows_in = []"
          using valid None by (auto simp: filter_empty_conv)
        ultimately show ?thesis by simp
      next
        case (Some v)
        have "filter (\<lambda>r. ?time r = t) (map node_row sibs)
              = filter (\<lambda>r. ?key r = v) (map node_row sibs)"
          using valid_sibs Some by (intro filter_cong [OF refl]) auto
        also have "\<dots> = filter (\<lambda>r. ?key r = v \<and> r \<in> node_row ` set sibs) rows_in"
          using stb [of v] eq by simp
        also have "\<dots> = filter (\<lambda>r. ?time r = t \<and> r \<in> node_row ` set sibs) rows_in"
          using valid Some by (intro filter_cong [OF refl]) auto
        finally show ?thesis .
      qed
    qed
    from first second show ?thesis by blast
  qed
  with f0(1) show ?thesis by blast
qed

lemma acyclic_rooted:
  assumes "acyclic (parent_links vals)"
  shows "rooted vals i"
proof (induction i rule: wf_induct_rule [OF finite_acyclic_wf_converse [OF parent_links_finite assms]])
  case (1 i)
  show ?case
  proof (cases "i \<in> Domain (parent_links vals)")
    case True
    then obtain p where p: "(i, p) \<in> parent_links vals" by blast
    then have "rooted vals p"
      using "1.IH" by simp
    then show ?thesis
      using p by (rule rooted_child)
  next
    case False
    then show ?thesis
      by (auto simp: rooted_def)
  qed
qed

lemma terminal_rtrancl:
  assumes "(a, b) \<in> P\<^sup>*" and "a \<notin> Domain P"
  shows "a = b"
  using assms by (auto elim: converse_rtranclE)

lemma roots_cover:
  assumes dist: "distinct (map row_id vals)"
    and all2: "list_all2 (subtree_of vals) (root_rows vals) ts"
  shows "distinct (forest_rows ts) \<and>
         set (forest_rows ts) = {u \<in> set vals. rooted vals (row_id u)}"
proof -
  let ?P = "parent_links vals"
  let ?S = "\<lambda>k. {u \<in> set vals. (row_id u, row_id k) \<in> ?P\<^sup>*}"
  have sv: "single_valued ?P"
    by (rule parent_links_single_valued [OF dist])
  have root: "r \<in> set vals \<and> row_id r \<notin> Domain ?P" if "r \<in> set (root_rows vals)" for r
    using that not_has_parent_root [OF dist, of r] by (simp add: root_rows_def)
  have "distinct vals"
    using dist by (simp add: distinct_map)
  then have drs: "distinct (root_rows vals)"
    by (simp add: root_rows_def)
  have disj: "\<forall>k1 \<in> set (root_rows vals). \<forall>k2 \<in> set (root_rows vals).
                k1 \<noteq> k2 \<longrightarrow> ?S k1 \<inter> ?S k2 = {}"
  proof (intro ballI impI)
    fix k1 k2
    assume k1: "k1 \<in> set (root_rows vals)" and k2: "k2 \<in> set (root_rows vals)"
      and ne: "k1 \<noteq> k2"
    have ids: "row_id k1 \<noteq> row_id k2"
      using row_by_id [OF dist] root [OF k1] root [OF k2] ne by blast
    show "?S k1 \<inter> ?S k2 = {}"
    proof (rule ccontr)
      assume "?S k1 \<inter> ?S k2 \<noteq> {}"
      then obtain u :: Row
        where "(row_id u, row_id k1) \<in> ?P\<^sup>*" "(row_id u, row_id k2) \<in> ?P\<^sup>*"
        by blast
      from single_valued_confluent [OF sv this]
      have "row_id k1 = row_id k2"
        using terminal_rtrancl [of "row_id k1" "row_id k2" ?P]
          terminal_rtrancl [of "row_id k2" "row_id k1" ?P] root [OF k1] root [OF k2]
        by auto
      with ids show False by contradiction
    qed
  qed
  have "list_all2 (\<lambda>k y. distinct (node_rows y) \<and> set (node_rows y) = ?S k) (root_rows vals) ts"
    by (rule list_all2_mono [OF all2]) (simp add: subtree_of_def)
  from all2_disjoint_concat [OF this drs disj]
  have dc: "distinct (forest_rows ts)"
    and sc: "set (forest_rows ts) = (\<Union>k \<in> set (root_rows vals). ?S k)"
    by (simp_all add: forest_rows_def)
  have "(\<Union>k \<in> set (root_rows vals). ?S k) = {u \<in> set vals. rooted vals (row_id u)}"
  proof (intro equalityI subsetI)
    fix u
    assume "u \<in> (\<Union>k \<in> set (root_rows vals). ?S k)"
    then show "u \<in> {u \<in> set vals. rooted vals (row_id u)}"
      using root by (auto simp: rooted_def)
  next
    fix u
    assume "u \<in> {u \<in> set vals. rooted vals (row_id u)}"
    then obtain r where u: "u \<in> set vals" and r: "(row_id u, r) \<in> ?P\<^sup>*" "r \<notin> Domain ?P"
      by (auto simp: rooted_def)
    have "r \<in> row_id ` set vals"
      using r(1) u by (cases rule: rtranclE) (auto simp: parent_links_def)
    then obtain r' where r': "r' \<in> set vals" "row_id r' = r"
      by auto
    then have "r' \<in> set (root_rows vals)"
      using r(2) not_has_parent_root [OF dist, of r'] by (simp add: root_rows_def)
    with r' r(1) u show "u \<in> (\<Union>k \<in> set (root_rows vals). ?S k)"
      by auto
  qed
  with dc sc show ?thesis by simp
qed

text \<open>
  C1, as the code has it. For a collection with unique identifiers whose parent links
  contain no cycle, \<open>buildTree\<close> returns a forest that holds every input record exactly
  once; a record whose parent identifier is absent from the collection is a root.
\<close>

theorem buildTree_every_record_once:
  assumes "distinct (map row_id rows_in)" and "acyclic (parent_links rows_in)"
  shows "\<exists>forest. buildTree getTime rows_in = Some forest \<and>
           mset (forest_rows forest) = mset rows_in \<and>
           distinct (forest_rows forest) \<and>
           (\<forall>r \<in> set rows_in. \<forall>p. parent_id r = Some p \<and> p \<notin> row_id ` set rows_in
               \<longrightarrow> r \<in> node_row ` set forest)"
proof -
  have vals: "lookup_rows rows_in = rows_in"
    using assms(1) by (rule lookup_rows_id)
  obtain ts where ts: "buildTree getTime rows_in = Some (sortRec getTime ts)"
    "list_all2 (subtree_of rows_in) (root_rows rows_in) ts"
    using buildTree_unsorted [of getTime rows_in] vals by auto
  have drows: "distinct rows_in"
    using assms(1) by (simp add: distinct_map)
  from roots_cover [OF assms(1) ts(2)] acyclic_rooted [OF assms(2)]
  have "distinct (forest_rows ts)" "set (forest_rows ts) = set rows_in"
    by simp_all
  then have "mset (forest_rows ts) = mset rows_in"
    using drows by (simp add: set_eq_iff_mset_eq_distinct)
  then have m: "mset (forest_rows (sortRec getTime ts)) = mset rows_in"
    by (simp add: sortRec_rows)
  then have d: "distinct (forest_rows (sortRec getTime ts))"
    using drows by (metis distinct_count_atmost_1 mset_eq_setD count_mset_0_iff)
  have tops: "map node_row ts = root_rows rows_in"
    by (rule all2_node_row) (rule list_all2_mono [OF ts(2)], simp add: subtree_of_def)
  have o: "r \<in> node_row ` set (sortRec getTime ts)"
    if "r \<in> set rows_in" "parent_id r = Some p" "p \<notin> row_id ` set rows_in" for r p
  proof -
    have "r \<in> set (root_rows rows_in)"
      using that by (simp add: root_rows_def has_parent_def)
    then have "r \<in> node_row ` set ts"
      using tops by (metis list.set_map)
    then show ?thesis
      by (simp only: sortRec_top_set)
  qed
  show ?thesis
    using ts(1) m d o by blast
qed

subsection \<open>Examples\<close>

lemma ex_getTime_vals:
  "ex_getTime ''1000'' = Some 1000" "ex_getTime ''1001'' = Some 1001"
  "ex_getTime ''1002'' = Some 1002" "ex_getTime ''1003'' = Some 1003"
  "ex_getTime ''10'' = Some 10" "ex_getTime ''20'' = Some 20" "ex_getTime ''30'' = Some 30"
  "ex_getTime ''1'' = Some 1" "ex_getTime ''3'' = Some 3" "ex_getTime ''5'' = Some 5"
  "ex_getTime ''7'' = Some 7" "ex_getTime ''soon'' = None"
  by (simp_all add: ex_getTime_def is_digit_def)

lemmas buildTree_eval =
  buildTree_def link_def Map_new_def Map_has_def link_step_def materialize.simps
  sortRec_Nil sortRec_Cons Array_sort_def compare_created_def time_diff_def mk_row_def

lemma ex_cycle_tree: "buildTree ex_getTime ex_cycle = Some []"
  by (simp add: buildTree_eval ex_cycle_def)

lemma ex_replies_tree:
  "buildTree ex_getTime ex_replies =
     Some [Node (mk_row ''P'' None ''1000'')
            [Node (mk_row ''c1'' (Some ''P'') ''1001'') [],
             Node (mk_row ''c2'' (Some ''P'') ''1002'') [],
             Node (mk_row ''c3'' (Some ''P'') ''1003'') []]]"
  by (simp add: buildTree_eval ex_replies_def ex_getTime_vals)

lemma ex_ties_tree:
  "map_option (map (\<lambda>n. row_id (node_row n))) (buildTree ex_getTime ex_ties) =
     Some [''z'', ''x'', ''y'', ''w'']"
  by (simp add: buildTree_eval ex_ties_def ex_getTime_vals)

lemma ex_orphan_tree:
  "buildTree ex_getTime ex_orphan =
     Some [Node (mk_row ''O'' (Some ''gone'') ''10'') [],
           Node (mk_row ''A'' None ''30'') [Node (mk_row ''B'' (Some ''A'') ''20'') []]]"
  by (simp add: buildTree_eval ex_orphan_def ex_getTime_vals)

lemma ex_orphan_acyclic: "acyclic (parent_links ex_orphan)"
proof (rule acyclicI_order)
  fix a b
  assume "(a, b) \<in> parent_links ex_orphan"
  then show "(if b = ''A'' then 0 else 1 :: nat) < (if a = ''A'' then 0 else 1)"
    by (auto simp: parent_links_def ex_orphan_def mk_row_def)
qed

theorem buildTree_every_record_once_witness:
  "distinct (map row_id ex_orphan) \<and> acyclic (parent_links ex_orphan) \<and>
   buildTree ex_getTime ex_orphan =
     Some [Node (mk_row ''O'' (Some ''gone'') ''10'') [],
           Node (mk_row ''A'' None ''30'') [Node (mk_row ''B'' (Some ''A'') ''20'') []]] \<and>
   mset (forest_rows [Node (mk_row ''O'' (Some ''gone'') ''10'') [],
           Node (mk_row ''A'' None ''30'') [Node (mk_row ''B'' (Some ''A'') ''20'') []]])
     = mset ex_orphan"
proof -
  have d: "distinct (map row_id ex_orphan)"
    by (simp add: ex_orphan_def mk_row_def)
  show ?thesis
    using buildTree_every_record_once [OF d ex_orphan_acyclic, of ex_getTime]
      d ex_orphan_acyclic
    by (simp add: ex_orphan_tree)
qed

text \<open>
  Without the proviso on cycles the claim fails: two records that name each other as parent
  are both attached to a node, neither is a root, and the forest is empty.
\<close>

theorem buildTree_loses_cycle:
  "distinct (map row_id ex_cycle) \<and> buildTree ex_getTime ex_cycle = Some [] \<and>
   mset (forest_rows []) \<noteq> mset ex_cycle"
  by (simp add: ex_cycle_tree) (simp add: ex_cycle_def mk_row_def forest_rows_def)

theorem buildTree_siblings_sorted_witness:
  "list_all (\<lambda>r. ex_getTime (created_at r) \<noteq> None) ex_replies \<and>
   distinct (map row_id ex_replies) \<and>
   buildTree ex_getTime ex_replies =
     Some [Node (mk_row ''P'' None ''1000'')
            [Node (mk_row ''c1'' (Some ''P'') ''1001'') [],
             Node (mk_row ''c2'' (Some ''P'') ''1002'') [],
             Node (mk_row ''c3'' (Some ''P'') ''1003'') []]] \<and>
   map (\<lambda>n. ex_getTime (created_at (node_row n)))
            [Node (mk_row ''c1'' (Some ''P'') ''1001'') [],
             Node (mk_row ''c2'' (Some ''P'') ''1002'') [],
             Node (mk_row ''c3'' (Some ''P'') ''1003'') []] = map Some [1001, 1002, 1003] \<and>
   map_option (map (\<lambda>n. row_id (node_row n))) (buildTree ex_getTime ex_ties) =
     Some [''z'', ''x'', ''y'', ''w'']"
proof -
  have v: "\<forall>r \<in> set ex_replies. ex_getTime (created_at r) \<noteq> None"
    by (simp add: ex_replies_def mk_row_def ex_getTime_vals)
  have d: "distinct (map row_id ex_replies)"
    by (simp add: ex_replies_def mk_row_def)
  show ?thesis
    using buildTree_siblings_sorted [of ex_getTime ex_replies] v d ex_ties_tree
    by (simp add: ex_replies_tree list_all_iff) (simp add: mk_row_def ex_getTime_vals)
qed

lemma ex_unparsable_tree:
  "map_option (map (\<lambda>n. row_id (node_row n))) (buildTree ex_getTime ex_unparsable) =
     Some [''n3'', ''bad'', ''n1'']"
  by (simp add: buildTree_eval ex_unparsable_def ex_getTime_vals)

lemma ex_dups_tree:
  "map_option (map node_row) (buildTree ex_getTime ex_dups) =
     Some [(mk_row ''a'' None ''7'')\<lparr>body := ''edited''\<rparr>, mk_row ''b'' None ''7'']"
  by (simp add: buildTree_eval ex_dups_def ex_getTime_vals)

text \<open>
  Without the provisos the claim fails. A timestamp that is not a date makes the comparator
  return \<open>NaN\<close>, and the root sequence n3, bad, n1 is returned as it is, although n3 is later
  than n1. Of two records with the same identifier the lookup keeps the second in the place
  of the first, so that it comes out before a record of the same timestamp that precedes it
  in the input.
\<close>

theorem buildTree_not_sorted_not_stable:
  "map_option (map (\<lambda>n. row_id (node_row n))) (buildTree ex_getTime ex_unparsable) =
     Some [''n3'', ''bad'', ''n1''] \<and>
   ex_getTime ''3'' = Some 3 \<and> ex_getTime ''1'' = Some 1 \<and> ex_getTime ''soon'' = None \<and>
   ex_unparsable = [mk_row ''n3'' None ''3'', mk_row ''bad'' None ''soon'',
                    mk_row ''n1'' None ''1''] \<and>
   map_option (map node_row) (buildTree ex_getTime ex_dups) =
     Some [(mk_row ''a'' None ''7'')\<lparr>body := ''edited''\<rparr>, mk_row ''b'' None ''7''] \<and>
   ex_dups = [mk_row ''a'' None ''7'', mk_row ''b'' None ''7'',
              (mk_row ''a'' None ''7'')\<lparr>body := ''edited''\<rparr>]"
  by (simp add: ex_unparsable_tree ex_dups_tree ex_getTime_vals)
     (simp add: ex_unparsable_def ex_dups_def)

section \<open>Properties of the profile back-fill\<close>

lemma missing_fields_patch_only_missing:
  "(patch_display_name (missing_fields_patch existing d) \<noteq> None
      \<longrightarrow> \<not> truthy (prof_display_name existing)) \<and>
   (patch_avatar_url (missing_fields_patch existing d) \<noteq> None
      \<longrightarrow> \<not> truthy (prof_avatar_url existing))"
  by (simp add: missing_fields_patch_def)

text \<open>
  C8. When the first read finds an existing profile, the patch that \<open>ensureProfile\<close>
  sends names a field only if that field is null or empty in the existing record. A
  non-empty display name (and likewise a non-empty avatar URL) of the existing record is
  therefore still the stored one after the call, whatever the identity-provider defaults
  are and whichever request fails, and it is the one of the returned profile.
\<close>

theorem ensureProfile_keeps_user_values:
  assumes "selectProfile (first_select_fails f) tbl (usr_id u) = Some existing"
    and "ensureProfile u f tbl = (tbl', res)"
  shows "(patch_display_name (missing_fields_patch existing (buildProfileDefaults u)) \<noteq> None
            \<longrightarrow> \<not> truthy (prof_display_name existing))
       \<and> (patch_avatar_url (missing_fields_patch existing (buildProfileDefaults u)) \<noteq> None
            \<longrightarrow> \<not> truthy (prof_avatar_url existing))
       \<and> (truthy (prof_display_name existing) \<longrightarrow>
            map_option prof_display_name (tbl' (usr_id u)) = Some (prof_display_name existing)
            \<and> (\<forall>p. res = Inr p \<longrightarrow> prof_display_name p = prof_display_name existing))
       \<and> (truthy (prof_avatar_url existing) \<longrightarrow>
            map_option prof_avatar_url (tbl' (usr_id u)) = Some (prof_avatar_url existing)
            \<and> (\<forall>p. res = Inr p \<longrightarrow> prof_avatar_url p = prof_avatar_url existing))"
proof -
  from assms(1) have row: "tbl (usr_id u) = Some existing"
    by (simp add: selectProfile_def split: if_splits)
  let ?patch = "missing_fields_patch existing (buildProfileDefaults u)"
  have name: "truthy (prof_display_name existing) \<Longrightarrow>
      prof_display_name (apply_patch ?patch existing) = prof_display_name existing"
    by (simp add: apply_patch_def missing_fields_patch_def)
  have avatar: "truthy (prof_avatar_url existing) \<Longrightarrow>
      prof_avatar_url (apply_patch ?patch existing) = prof_avatar_url existing"
    by (simp add: apply_patch_def missing_fields_patch_def)
  have run: "(tbl', res) =
      (if patch_display_name ?patch \<noteq> None \<or> patch_avatar_url ?patch \<noteq> None then
         (case update_profile (update_error f) tbl (usr_id u) ?patch of
            (tbl1, Some patchError) \<Rightarrow> (tbl1, Inl patchError)
          | (tbl1, None) \<Rightarrow>
              (case selectProfile (second_select_fails f) tbl1 (usr_id u) of
                 Some updated \<Rightarrow> (tbl1, Inr updated)
               | None \<Rightarrow> (tbl1, Inr existing)))
       else (tbl, Inr existing))"
    using assms by (simp add: ensureProfile_def Let_def)
  have stored: "tbl' (usr_id u) = Some existing \<or> tbl' (usr_id u) = Some (apply_patch ?patch existing)"
    using run row
    by (auto simp: update_profile_def selectProfile_def split: if_splits option.splits)
  have returned: "res = Inr p \<Longrightarrow> p = existing \<or> p = apply_patch ?patch existing" for p
    using run row
    by (auto simp: update_profile_def selectProfile_def split: if_splits option.splits)
  show ?thesis
  proof (intro conjI impI allI)
    show "patch_display_name ?patch \<noteq> None \<Longrightarrow> \<not> truthy (prof_display_name existing)"
      by (simp add: missing_fields_patch_def split: if_splits)
    show "patch_avatar_url ?patch \<noteq> None \<Longrightarrow> \<not> truthy (prof_avatar_url existing)"
      by (simp add: missing_fields_patch_def split: if_splits)
    show "truthy (prof_display_name existing) \<Longrightarrow>
        map_option prof_display_name (tbl' (usr_id u)) = Some (prof_display_name existing)"
      using stored name by auto
    show "truthy (prof_display_name existing) \<Longrightarrow> res = Inr p \<Longrightarrow>
        prof_display_name p = prof_display_name existing" for p
      using returned [of p] name by auto
    show "truthy (prof_avatar_url existing) \<Longrightarrow>
        map_option prof_avatar_url (tbl' (usr_id u)) = Some (prof_avatar_url existing)"
      using stored avatar by auto
    show "truthy (prof_avatar_url existing) \<Longrightarrow> res = Inr p \<Longrightarrow>
        prof_avatar_url p = prof_avatar_url existing" for p
      using returned [of p] avatar by auto
  qed
qed

lemma ex_defaults:
  "buildProfileDefaults ex_user =
     \<lparr>default_display_name = Some ''Ann Provider'', default_avatar_url = Some ''http://img/ann''\<rparr>"
  by (simp add: buildProfileDefaults_def ex_user_def js_or_def truthy_def)

lemma ex_ensureProfile:
  "ensureProfile ex_user no_faults ex_table =
     ([''ann'' \<mapsto> ex_profile\<lparr>prof_avatar_url := Some ''http://img/ann''\<rparr>],
      Inr (ex_profile\<lparr>prof_avatar_url := Some ''http://img/ann''\<rparr>))"
  unfolding ensureProfile_def ex_defaults
  by (simp add: selectProfile_def no_faults_def ex_table_def missing_fields_patch_def
      update_profile_def apply_patch_def truthy_def ex_profile_def ex_user_def)

theorem ensureProfile_keeps_user_values_witness:
  "selectProfile (first_select_fails no_faults) ex_table (usr_id ex_user) = Some ex_profile \<and>
   truthy (prof_display_name ex_profile) \<and>
   prof_display_name ex_profile \<noteq> default_display_name (buildProfileDefaults ex_user) \<and>
   map_option prof_display_name (fst (ensureProfile ex_user no_faults ex_table) ''ann'')
     = Some (Some ''annie'') \<and>
   map_option prof_display_name
     (case snd (ensureProfile ex_user no_faults ex_table) of Inl e \<Rightarrow> None | Inr p \<Rightarrow> Some p)
     = Some (Some ''annie'')"
proof -
  have sel: "selectProfile (first_select_fails no_faults) ex_table (usr_id ex_user) = Some ex_profile"
    by (simp add: selectProfile_def no_faults_def ex_table_def ex_user_def)
  have t: "truthy (prof_display_name ex_profile)"
    by (simp add: truthy_def ex_profile_def)
  have d: "prof_display_name ex_profile \<noteq> default_display_name (buildProfileDefaults ex_user)"
    by (simp add: ex_defaults ex_profile_def)
  show ?thesis
    using ensureProfile_keeps_user_values [OF sel ex_ensureProfile] sel t d
    by (simp add: ex_ensureProfile) (simp add: ex_profile_def ex_user_def)
qed


section \<open>Properties of the hydration guard\<close>

lemma commitIfLatest_stale:
  "runId \<noteq> runIdRef st \<Longrightarrow> commitIfLatest runId fn st = st"
  by (simp add: commitIfLatest_def)

lemma settle_stale:
  "runId \<noteq> runIdRef st \<Longrightarrow> settle runId res st = st"
  by (simp add: settle_def on_resolved_def on_rejected_def on_finally_def commitIfLatest_def
      split: sum.splits)

lemma handlers_runIdRef:
  "runIdRef (on_resolved runId p st) = runIdRef st"
  "runIdRef (on_rejected runId m st) = runIdRef st"
  "runIdRef (on_finally runId st) = runIdRef st"
  by (simp_all add: on_resolved_def on_rejected_def on_finally_def commitIfLatest_def)

lemma hydrate_runIdRef:
  "runIdRef (fst (hydrateFromSession s st)) = runIdRef st + 1
   \<and> fst (snd (hydrateFromSession s st)) = runIdRef st + 1"
  by (simp add: hydrateFromSession_def commitIfLatest_def Let_def split: option.splits)

lemma auth_step_runIdRef: "runIdRef st \<le> runIdRef (auth_step ev st)"
  by (cases ev) (simp_all add: handlers_runIdRef hydrate_runIdRef)

lemma auth_run_runIdRef: "runIdRef st \<le> runIdRef (auth_run evs st)"
  unfolding auth_run_def
proof (induction evs arbitrary: st)
  case Nil
  then show ?case by simp
next
  case (Cons ev evs)
  have "runIdRef st \<le> runIdRef (auth_step ev st)"
    by (rule auth_step_runIdRef)
  also have "\<dots> \<le> runIdRef (fold auth_step evs (auth_step ev st))"
    by (rule Cons.IH)
  finally show ?case by simp
qed

text \<open>
  C2. Attempt 1 starts in any state and captures \<open>r1\<close>; anything may happen (\<open>evs1\<close>);
  attempt 2 starts; anything may happen again (\<open>evs2\<close>). In the state reached, every
  commit attempted by attempt 1 is discarded, whatever it would write to session, user,
  profile, loading or error state, and so is the settling of its profile request: the state
  stays as it is.
\<close>

theorem stale_hydration_discarded:
  "(let (st1, r1, u1) = hydrateFromSession s1 st;
        st2 = auth_run evs1 st1;
        (st3, r2, u2) = hydrateFromSession s2 st2;
        st4 = auth_run evs2 st3
    in r1 < r2 \<and> commitIfLatest r1 fn st4 = st4 \<and> settle r1 res st4 = st4)"
proof -
  obtain st1 r1 u1 where h1: "hydrateFromSession s1 st = (st1, r1, u1)"
    by (cases "hydrateFromSession s1 st") auto
  obtain st3 r2 u2 where h2: "hydrateFromSession s2 (auth_run evs1 st1) = (st3, r2, u2)"
    by (cases "hydrateFromSession s2 (auth_run evs1 st1)") auto
  have r1: "r1 = runIdRef st1"
    using hydrate_runIdRef [of s1 st] h1 by simp
  have r2: "r2 = runIdRef st3" "r2 = runIdRef (auth_run evs1 st1) + 1"
    using hydrate_runIdRef [of s2 "auth_run evs1 st1"] h2 by simp_all
  have "r1 \<le> runIdRef (auth_run evs1 st1)"
    using r1 auth_run_runIdRef by simp
  then have lt: "r1 < r2"
    using r2 by simp
  have "r2 \<le> runIdRef (auth_run evs2 st3)"
    using r2 auth_run_runIdRef by simp
  then have "r1 \<noteq> runIdRef (auth_run evs2 st3)"
    using lt by simp
  then show ?thesis
    using lt by (simp add: h1 h2 commitIfLatest_stale settle_stale)
qed

lemma ex_hydrate_first:
  "hydrateFromSession (Some ex_session) ex_auth =
     (\<lparr>session = Some ex_session, user = Some ex_user,
       profile = Some \<lparr>prof_id = ''ann'', prof_display_name = Some ''Ann Provider'',
                       prof_avatar_url = Some ''http://img/ann''\<rparr>,
       authLoading = False, profileLoading = True, errMsg = None,
       runIdRef = 1, mountedRef = True\<rparr>, 1, Some ex_user)"
  unfolding hydrateFromSession_def
  by (simp add: ex_defaults commitIfLatest_def ex_auth_def ex_session_def Let_def)
     (simp add: ex_user_def)

lemma ex_hydrate_twice:
  "hydrateFromSession None (fst (hydrateFromSession (Some ex_session) ex_auth)) =
     (\<lparr>session = None, user = None, profile = None, authLoading = False,
       profileLoading = False, errMsg = None, runIdRef = 2, mountedRef = True\<rparr>, 2, None)"
  unfolding ex_hydrate_first
  by (simp add: hydrateFromSession_def commitIfLatest_def Let_def)

theorem stale_hydration_discarded_witness:
  "fst (snd (hydrateFromSession (Some ex_session) ex_auth)) = 1 \<and>
   settle 1 (Inr ex_profile)
     (fst (hydrateFromSession None (fst (hydrateFromSession (Some ex_session) ex_auth)))) =
   \<lparr>session = None, user = None, profile = None, authLoading = False,
     profileLoading = False, errMsg = None, runIdRef = 2, mountedRef = True\<rparr>"
  using stale_hydration_discarded
    [of "Some ex_session" ex_auth "[]" None "[]" id "Inr ex_profile"] ex_hydrate_twice
  by (simp add: auth_run_def ex_hydrate_first)

end
